theory Spec2Isabelle
  imports Main "HOL-Library.Word" "HOL-Library.Extended_Nat"
begin

unbundle bit_operations_syntax

section \<open>JavaScript values\<close>

text \<open>
  The bookmark tree that \<open>chrome.bookmarks.getTree()\<close> returns, and that a commit stores
  as its \<open>data\<close>, is an untyped nested value. \<open>calculateStats\<close> inspects it by duck typing
  (\<open>Array.isArray\<close>, the truthiness of \<open>node.url\<close> and \<open>node.children\<close>), so it is modelled
  as a JSON value. Numbers are restricted to integers; an object is an association list
  read by its first binding of a key.
\<close>

datatype json =
    JNull
  | JBool bool
  | JNum int
  | JStr string
  | JArr "json list"
  | JObj "(string \<times> json) list"

datatype error = TypeError | RangeError

text \<open>JavaScript truthiness of a value (\<open>if (v)\<close>, \<open>!v\<close>, \<open>v || d\<close>).\<close>

fun truthy :: "json \<Rightarrow> bool" where
  "truthy JNull = False"
| "truthy (JBool b) = b"
| "truthy (JNum n) = (n \<noteq> 0)"
| "truthy (JStr s) = (s \<noteq> [])"
| "truthy (JArr xs) = True"
| "truthy (JObj kvs) = True"

text \<open>
  Property read \<open>v.k\<close> for the keys \<open>url\<close> and \<open>children\<close>: reading a property of \<open>null\<close>
  throws a TypeError; an object yields its binding, or \<open>undefined\<close> (here \<open>None\<close>) without
  one; arrays and primitives have neither property and yield \<open>undefined\<close>.
\<close>

fun get_prop :: "json \<Rightarrow> string \<Rightarrow> error + json option" where
  "get_prop JNull k = Inl TypeError"
| "get_prop (JObj kvs) k = Inr (map_of kvs k)"
| "get_prop v k = Inr None"

fun truthy_opt :: "json option \<Rightarrow> bool" where
  "truthy_opt None = False"
| "truthy_opt (Some v) = truthy v"

section \<open>Stat Engine: \<open>GitManager.calculateStats\<close>\<close>

record stats =
  totalBookmarks :: nat
  totalFolders :: nat
  totalItems :: nat

lemma map_of_size_json:
  "map_of kvs k = Some v \<Longrightarrow> size v < Suc (size_list (size_prod (\<lambda>_. 0) size) kvs)"
  by (induction kvs) (auto split: if_splits)

lemma get_prop_size: "get_prop node k = Inr (Some ch) \<Longrightarrow> size ch < size node"
  by (cases node) (auto dest: map_of_size_json)

text \<open>
  \<open>countItems\<close> is the closure of the source; the two counters it increments are threaded
  through as a pair \<open>(totalBookmarks, totalFolders)\<close>. \<open>countNodes\<close> is its \<open>for ... of\<close>
  loop over the elements of the array.
\<close>

function countItems :: "json \<Rightarrow> nat \<times> nat \<Rightarrow> error + nat \<times> nat"
  and countNodes :: "json list \<Rightarrow> nat \<times> nat \<Rightarrow> error + nat \<times> nat" where
  "countItems nodes acc =
     (case nodes of JArr ns \<Rightarrow> countNodes ns acc | _ \<Rightarrow> Inr acc)"
| "countNodes [] acc = Inr acc"
| "countNodes (node # ns) acc =
     (case get_prop node ''url'' of
        Inl e \<Rightarrow> Inl e
      | Inr url \<Rightarrow>
          (let acc1 = (if truthy_opt url then (Suc (fst acc), snd acc)
                       else (fst acc, Suc (snd acc)))
           in case get_prop node ''children'' of
                Inl e \<Rightarrow> Inl e
              | Inr None \<Rightarrow> countNodes ns acc1
              | Inr (Some ch) \<Rightarrow>
                  (if truthy ch
                   then (case countItems ch acc1 of
                           Inl e \<Rightarrow> Inl e
                         | Inr acc2 \<Rightarrow> countNodes ns acc2)
                   else countNodes ns acc1)))"
  by pat_completeness auto
termination
  by (relation "measure (\<lambda>x. case x of Inl (n, _) \<Rightarrow> 2 * size n + 1
                                       | Inr (ns, _) \<Rightarrow> 2 * size_list size ns)")
     (auto dest: get_prop_size)

definition calculateStats :: "json \<Rightarrow> error + stats" where
  "calculateStats bookmarkData =
     (case (case bookmarkData of JArr ns \<Rightarrow> countItems bookmarkData (0, 0)
                               | _ \<Rightarrow> Inr (0, 0)) of
        Inl e \<Rightarrow> Inl e
      | Inr (b, f) \<Rightarrow>
          Inr \<lparr>totalBookmarks = b, totalFolders = f, totalItems = b + f\<rparr>)"

section \<open>Hash generation: \<open>GitManager.generateHash\<close>\<close>

text \<open>
  \<open>Number.prototype.toString(radix)\<close> on a non-negative integer: its digits in the radix,
  most significant first, lower-case, without leading zeros. Used with radix 16 by
  \<open>generateHash\<close> and with radix 10 where a number is concatenated to a string.
\<close>

definition digit_char :: "nat \<Rightarrow> char" where
  "digit_char d = ''0123456789abcdef'' ! d"

function toString_radix :: "nat \<Rightarrow> nat \<Rightarrow> string" where
  "toString_radix r n =
     (if n < r \<and> 2 \<le> r then [digit_char n]
      else if 2 \<le> r then toString_radix r (n div r) @ [digit_char (n mod r)]
      else [])"
  by pat_completeness auto
termination
  by (relation "measure (\<lambda>(r, n). n)") auto

declare toString_radix.simps [simp del]

text \<open>\<open>String.prototype.padStart(n, c)\<close> for a one-character filler.\<close>

definition padStart :: "nat \<Rightarrow> char \<Rightarrow> string \<Rightarrow> string" where
  "padStart n c s = replicate (n - length s) c @ s"

text \<open>
  The checksum loop of \<open>generateHash\<close>: \<open>hash = ((hash << 5) - hash) + char; hash = hash & hash\<close>.
  The shift and the final \<open>&\<close> work on 32-bit integers and the subtraction and addition
  between them are exact, so each round is arithmetic modulo \<open>2^32\<close>. A character is a
  code unit below 256 here (\<open>charCodeAt\<close> is \<open>of_char\<close>).
\<close>

fun hash_loop :: "32 word \<Rightarrow> string \<Rightarrow> 32 word" where
  "hash_loop h [] = h"
| "hash_loop h (c # cs) = hash_loop ((push_bit 5 h - h) + of_nat (of_char c)) cs"

text \<open>
  \<open>generateHash input\<close>, with the reading \<open>now\<close> of \<open>Date.now()\<close> in its last line.
  \<open>Math.abs\<close> of the signed 32-bit checksum is at most \<open>2^31\<close>.
\<close>

definition generateHash :: "string \<Rightarrow> nat \<Rightarrow> string" where
  "generateHash input now =
     padStart 8 (CHR ''0'') (toString_radix 16 (nat \<bar>sint (hash_loop 0 input)\<bar>))
       @ toString_radix 16 now"

section \<open>Persisted data\<close>

record signature =
  name :: string
  email :: string
  timestamp :: nat

record commit =
  hash :: string
  message :: string
  author :: signature
  committer :: signature
  parent :: "string option"
  tree :: string
  data :: json
  stats :: stats

record repository =
  initialized :: bool
  created :: nat
  head :: "string option"
  branches :: "string \<rightharpoonup> string option"

record user_info =
  user_name :: string
  user_email :: string

record config =
  user :: "user_info option"

text \<open>
  The seven bookmark events the tracker listens to, each with the part of its payload
  that \<open>generateCommitMessage\<close> reads: the id, and for a created node its title and its
  url (absent for a folder).
\<close>

datatype bookmark_event =
    Created string string "string option"
  | Removed string
  | Moved string
  | Changed string
  | Reordered string
  | Import_began
  | Import_ended

fun eventType :: "bookmark_event \<Rightarrow> string" where
  "eventType (Created i t u) = ''created''"
| "eventType (Removed i) = ''removed''"
| "eventType (Moved i) = ''moved''"
| "eventType (Changed i) = ''changed''"
| "eventType (Reordered i) = ''reordered''"
| "eventType Import_began = ''import_began''"
| "eventType Import_ended = ''import_ended''"

record change =
  change_timestamp :: nat
  event :: bookmark_event

record history_entry =
  entry_timestamp :: nat
  changes :: "change list"
  commitMessage :: string

text \<open>
  \<open>chrome.storage.local\<close>, restricted to the five slots the extension's core uses. A slot
  is \<open>None\<close> when the key is absent (\<open>result[key]\<close> is \<open>undefined\<close>). The values have the
  shapes that \<open>ensureRepository\<close>, \<open>createCommit\<close> and \<open>storeChangeHistory\<close> write; the
  storage calls themselves are taken to succeed.
\<close>

record store =
  bookmark_git_repo :: "repository option"
  bookmark_commits :: "(string \<rightharpoonup> commit) option"
  current_branch :: "string option"
  git_config :: "config option"
  changeHistory :: "history_entry list option"

definition empty_store :: store where
  "empty_store = \<lparr>bookmark_git_repo = None, bookmark_commits = None,
     current_branch = None, git_config = None, changeHistory = None\<rparr>"

text \<open>The GitManager object: its \<open>initialized\<close> flag, and the storage it works on.\<close>

record git_manager =
  gm_initialized :: bool
  storage :: store

section \<open>Plain objects used as tables\<close>

text \<open>
  The commit table and the branch table are plain objects whose keys are hashes and
  branch names. Their own properties are a map. A read \<open>obj[k]\<close> of a key that is not an
  own property falls through to \<open>Object.prototype\<close>: for the names that it defines the
  read yields the inherited function or object, which is truthy and is no commit; for any
  other key it yields \<open>undefined\<close>.
\<close>

definition object_prototype_names :: "string list" where
  "object_prototype_names =
     [''constructor'', ''__defineGetter__'', ''__defineSetter__'', ''hasOwnProperty'',
      ''__lookupGetter__'', ''__lookupSetter__'', ''isPrototypeOf'',
      ''propertyIsEnumerable'', ''toString'', ''valueOf'', ''__proto__'',
      ''toLocaleString'']"

datatype 'a property = Own 'a | Inherited | Absent

definition object_get :: "(string \<rightharpoonup> 'a) \<Rightarrow> string \<Rightarrow> 'a property" where
  "object_get obj k =
     (case obj k of
        Some v \<Rightarrow> Own v
      | None \<Rightarrow> if k \<in> set object_prototype_names then Inherited else Absent)"

text \<open>
  An assignment \<open>obj[k] = v\<close> writes the own property \<open>k\<close>, with one exception: when
  \<open>__proto__\<close> is not an own property, the assignment calls the setter inherited from
  \<open>Object.prototype\<close>, which ignores a value that is neither an object nor \<open>null\<close>, and
  the object is left as it was. This is the assignment \<open>repo.branches[currentBranch] =
  commitHash\<close>, whose value is a string.
\<close>

definition object_set :: "(string \<rightharpoonup> 'a) \<Rightarrow> string \<Rightarrow> 'a \<Rightarrow> (string \<rightharpoonup> 'a)" where
  "object_set obj k v = (if k = ''__proto__'' \<and> obj k = None then obj else obj(k \<mapsto> v))"

section \<open>Commit Store: \<open>GitManager\<close>\<close>

definition default_config :: config where
  "default_config = \<lparr>user = Some \<lparr>user_name = ''Bookmark Git Tracker'',
     user_email = ''bookmark-tracker@extension.local''\<rparr>\<rparr>"

definition ensureRepository :: "store \<Rightarrow> nat \<Rightarrow> store" where
  "ensureRepository st now =
     (case bookmark_git_repo st of
        Some r \<Rightarrow> st
      | None \<Rightarrow>
          st\<lparr>bookmark_git_repo :=
               Some \<lparr>initialized = True, created = now, head = None,
                     branches = [''main'' \<mapsto> None]\<rparr>,
             bookmark_commits := Some Map.empty,
             current_branch := Some ''main'',
             git_config := Some default_config\<rparr>)"

definition initialize :: "git_manager \<Rightarrow> nat \<Rightarrow> git_manager" where
  "initialize gm now =
     (if gm_initialized gm then gm
      else \<lparr>gm_initialized = True, storage = ensureRepository (storage gm) now\<rparr>)"

text \<open>\<open>x || d\<close> on a string that may be absent: the empty string is falsy.\<close>

definition or_default :: "string option \<Rightarrow> string \<Rightarrow> string" where
  "or_default x d = (case x of None \<Rightarrow> d | Some s \<Rightarrow> if s = [] then d else s)"

definition getCurrentBranch :: "store \<Rightarrow> string" where
  "getCurrentBranch st = or_default (current_branch st) ''main''"

text \<open>The four readings of \<open>Date.now()\<close> that one \<open>createCommit\<close> call takes, in order.\<close>

record commit_clock =
  at_hash_input :: nat
  at_hash_suffix :: nat
  at_author :: nat
  at_committer :: nat

text \<open>
  \<open>createCommit\<close>. \<open>JSON.stringify\<close> is the platform's and is a parameter. The call throws
  (and rethrows from its \<open>catch\<close>) when the repository slot is absent, since \<open>repo.head\<close>
  reads a property of \<open>undefined\<close>, and when \<open>calculateStats\<close> throws. On success the
  repository and the commit table are written back together and the hash is returned.
  The \<open>author\<close> argument of the source is not used by its body. The key of
  \<open>commits[commitHash] = commit\<close> is made of hexadecimal digits, so that assignment writes
  an own property; the key of \<open>repo.branches[currentBranch] = commitHash\<close> is whatever
  name the storage holds.
\<close>

definition createCommit ::
  "(json \<Rightarrow> string) \<Rightarrow> store \<Rightarrow> commit_clock \<Rightarrow> json \<Rightarrow> string \<Rightarrow> string
     \<Rightarrow> error + string \<times> store" where
  "createCommit stringify st clk bookmarkData msg author_arg =
     (let commitHash = generateHash
            (toString_radix 10 (at_hash_input clk) @ msg @ stringify bookmarkData)
            (at_hash_suffix clk);
          commits = (case bookmark_commits st of None \<Rightarrow> Map.empty | Some c \<Rightarrow> c);
          currentBranch = or_default (current_branch st) ''main'';
          cfg_user = (case git_config st of None \<Rightarrow> None | Some cfg \<Rightarrow> user cfg);
          nm = or_default (map_option user_name cfg_user) ''Bookmark Git Tracker'';
          em = or_default (map_option user_email cfg_user)
                 ''bookmark-tracker@extension.local''
      in case bookmark_git_repo st of
           None \<Rightarrow> Inl TypeError
         | Some repo \<Rightarrow>
             (case calculateStats bookmarkData of
                Inl e \<Rightarrow> Inl e
              | Inr sts \<Rightarrow>
                  (let cm = \<lparr>hash = commitHash, message = msg,
                         author = \<lparr>name = nm, email = em, timestamp = at_author clk\<rparr>,
                         committer =
                           \<lparr>name = nm, email = em, timestamp = at_committer clk\<rparr>,
                         parent = head repo, tree = commitHash @ ''_tree'',
                         data = bookmarkData, stats = sts\<rparr>;
                       commits' = commits(commitHash \<mapsto> cm);
                       repo' = repo\<lparr>head := Some commitHash,
                         branches :=
                           object_set (branches repo) currentBranch (Some commitHash)\<rparr>
                   in Inr (commitHash,
                        st\<lparr>bookmark_git_repo := Some repo',
                           bookmark_commits := Some commits'\<rparr>))))"

record commit_summary =
  summary_hash :: string
  shortHash :: string
  summary_message :: string
  summary_author :: signature
  summary_committer :: signature
  summary_stats :: stats
  date :: nat

text \<open>
  The entry that \<open>getCommitHistory\<close> pushes for a commit. \<open>date\<close> is the committer
  timestamp, which the source renders with \<open>new Date(timestamp).toISOString()\<close>; that
  call throws a RangeError for a timestamp beyond 8.64e15 milliseconds, the range of
  \<open>Date\<close>.
\<close>

definition date_representable :: "nat \<Rightarrow> bool" where
  "date_representable ts = (ts \<le> 8640000000000000)"

definition summarize :: "commit \<Rightarrow> commit_summary" where
  "summarize cm = \<lparr>summary_hash = hash cm, shortHash = take 8 (hash cm),
     summary_message = message cm, summary_author = author cm,
     summary_committer = committer cm, summary_stats = stats cm,
     date = timestamp (committer cm)\<rparr>"

text \<open>
  The \<open>while (currentHash && count < limit)\<close> loop of \<open>getCommitHistory\<close>. The limit is a
  number that may be \<open>Infinity\<close>; with that limit the loop need not end, so not returning
  is the value \<open>None\<close>. \<open>commits[currentHash]\<close> is a read of a plain object: when it yields
  \<open>undefined\<close> the loop breaks; when it yields a value inherited from \<open>Object.prototype\<close>,
  \<open>commit.hash\<close> is \<open>undefined\<close> and \<open>commit.hash.substring\<close> throws a TypeError; and a
  commit whose timestamp \<open>Date\<close> cannot represent makes \<open>toISOString\<close> throw.
\<close>

partial_function (option) history_loop ::
  "(string \<rightharpoonup> commit) \<Rightarrow> string option \<Rightarrow> nat \<Rightarrow> enat \<Rightarrow> commit_summary list
     \<Rightarrow> (error + commit_summary list) option" where
  "history_loop commits currentHash count limit history =
     (case currentHash of
        None \<Rightarrow> Some (Inr history)
      | Some h \<Rightarrow>
          if h \<noteq> [] \<and> enat count < limit
          then (case object_get commits h of
                  Absent \<Rightarrow> Some (Inr history)
                | Inherited \<Rightarrow> Some (Inl TypeError)
                | Own cm \<Rightarrow>
                    if date_representable (timestamp (committer cm))
                    then history_loop commits (parent cm) (Suc count) limit
                           (history @ [summarize cm])
                    else Some (Inl RangeError))
          else Some (Inr history))"

definition commit_table :: "store \<Rightarrow> (string \<rightharpoonup> commit)" where
  "commit_table st = (case bookmark_commits st of None \<Rightarrow> Map.empty | Some c \<Rightarrow> c)"

text \<open>
  \<open>getCommitHistory\<close>: without a repository record or a head it returns the empty list;
  otherwise it returns what the loop collects, and its \<open>catch\<close> turns anything thrown in
  the loop into the empty list.
\<close>

definition getCommitHistory :: "store \<Rightarrow> enat \<Rightarrow> commit_summary list option" where
  "getCommitHistory st limit =
     (case bookmark_git_repo st of
        None \<Rightarrow> Some []
      | Some repo \<Rightarrow>
          (case head repo of
             None \<Rightarrow> Some []
           | Some h \<Rightarrow>
               if h = [] then Some []
               else (case history_loop (commit_table st) (head repo) 0 limit [] of
                       None \<Rightarrow> None
                     | Some (Inl e) \<Rightarrow> Some []
                     | Some (Inr history) \<Rightarrow> Some history)))"

text \<open>A JavaScript value that may be \<open>undefined\<close> or \<open>null\<close>.\<close>

datatype 'a js = Undefined | Null | Val 'a

record repository_stats =
  stats_initialized :: bool
  totalCommits :: nat
  stats_branches :: nat
  stats_currentBranch :: string
  headCommit :: "string js"
  stats_created :: "nat js"
  lastCommit :: "nat js"

definition getRepositoryStats :: "store \<Rightarrow> repository_stats" where
  "getRepositoryStats st =
     (let repo = bookmark_git_repo st; commits = commit_table st
      in \<lparr>stats_initialized = (repo \<noteq> None),
          totalCommits = card (dom commits),
          stats_branches = (case repo of None \<Rightarrow> 0 | Some r \<Rightarrow> card (dom (branches r))),
          stats_currentBranch = getCurrentBranch st,
          headCommit = (case repo of None \<Rightarrow> Undefined
                        | Some r \<Rightarrow> (case head r of None \<Rightarrow> Null | Some h \<Rightarrow> Val h)),
          stats_created = (case repo of None \<Rightarrow> Undefined | Some r \<Rightarrow> Val (created r)),
          lastCommit =
            (case repo of
               None \<Rightarrow> Null
             | Some r \<Rightarrow>
                 (case head r of
                    None \<Rightarrow> Null
                  | Some h \<Rightarrow>
                      if h = [] then Null
                      else (case object_get commits h of
                              Own cm \<Rightarrow> Val (timestamp (committer cm))
                            | _ \<Rightarrow> Undefined)))\<rparr>)"

text \<open>
  \<open>resetRepository\<close>: removes the repository, commit table and branch slots, clears the
  \<open>initialized\<close> flag and initializes again. It returns \<open>true\<close>.
\<close>

definition resetRepository :: "git_manager \<Rightarrow> nat \<Rightarrow> bool \<times> git_manager" where
  "resetRepository gm now =
     (let st = (storage gm)\<lparr>bookmark_git_repo := None, bookmark_commits := None,
                 current_branch := None\<rparr>
      in (True, initialize \<lparr>gm_initialized = False, storage = st\<rparr> now))"

text \<open>
  The export bundle \<open>{repository, commits, currentBranch, config, exportDate, version}\<close>.
  A field is \<open>None\<close> when the object lacks it; a field that is present has the shape
  \<open>exportRepository\<close> writes.
\<close>

record backup_data =
  repository :: "repository option"
  commits :: "(string \<rightharpoonup> commit) option"
  currentBranch :: "string option"
  config :: "config option"
  exportDate :: "string option"
  version :: "string option"

definition exportRepository :: "store \<Rightarrow> string \<Rightarrow> backup_data" where
  "exportRepository st export_date =
     \<lparr>repository = bookmark_git_repo st, commits = bookmark_commits st,
      currentBranch = current_branch st, config = git_config st,
      exportDate = Some export_date, version = Some ''1.0.0''\<rparr>"

section \<open>Change Coalescer: \<open>BookmarkTracker\<close>\<close>

record tracker =
  gitManager :: git_manager
  isInitialized :: bool
  pendingChanges :: "change list"
  changeBuffer :: "nat option"
  bufferDelay :: nat

text \<open>
  \<open>chrome.storage.local.set\<close> of one slot: a value that is \<open>undefined\<close> is not written and
  leaves the slot as it was.
\<close>

definition set_slot :: "'a option \<Rightarrow> 'a option \<Rightarrow> 'a option" where
  "set_slot v old = (case v of None \<Rightarrow> old | Some x \<Rightarrow> Some x)"

record result =
  success :: bool
  error_message :: "string option"

text \<open>
  \<open>BookmarkTracker.importRepository\<close>: resets the repository, then writes the four slots
  from the bundle, with \<open>'main'\<close> and \<open>{}\<close> for a falsy branch name and configuration.
\<close>

definition importRepository :: "backup_data \<Rightarrow> tracker \<Rightarrow> nat \<Rightarrow> result \<times> tracker" where
  "importRepository d tr now =
     (let gm = snd (resetRepository (gitManager tr) now);
          st = storage gm;
          st' = st\<lparr>bookmark_git_repo := set_slot (repository d) (bookmark_git_repo st),
                  bookmark_commits := set_slot (commits d) (bookmark_commits st),
                  current_branch := Some (or_default (currentBranch d) ''main''),
                  git_config := Some (case config d of None \<Rightarrow> \<lparr>user = None\<rparr>
                                      | Some c \<Rightarrow> c)\<rparr>
      in (\<lparr>success = True, error_message = None\<rparr>, tr\<lparr>gitManager := gm\<lparr>storage := st'\<rparr>\<rparr>))"

text \<open>
  The event counts of a burst, \<open>eventCounts[type] = (eventCounts[type] || 0) + 1\<close>, as an
  association list in the order in which the keys were first written, which is the order
  \<open>Object.entries\<close> lists them in.
\<close>

fun count_event :: "string \<Rightarrow> (string \<times> nat) list \<Rightarrow> (string \<times> nat) list" where
  "count_event k [] = [(k, 1)]"
| "count_event k ((k', n) # kvs) =
     (if k = k' then (k', n + 1) # kvs else (k', n) # count_event k kvs)"

definition eventCounts :: "change list \<Rightarrow> (string \<times> nat) list" where
  "eventCounts chs = foldl (\<lambda>m c. count_event (eventType (event c)) m) [] chs"

text \<open>\<open>Array.prototype.join\<close> with a separator.\<close>

fun join :: "string \<Rightarrow> string list \<Rightarrow> string" where
  "join sep [] = []"
| "join sep [x] = x"
| "join sep (x # y # ys) = x @ sep @ join sep (y # ys)"

text \<open>
  \<open>generateCommitMessage\<close>: a message of its own for a single change, by the type of its
  event, and a summary of the counts by event type otherwise. The \<open>default\<close> branch of
  the source's \<open>switch\<close> is for event types that no listener passes.
\<close>

fun generateCommitMessage :: "change list \<Rightarrow> string" where
  "generateCommitMessage [c] =
     (case event c of
        Created i title url \<Rightarrow>
          ''Added bookmark: '' @
            (if title \<noteq> [] then title else or_default url ''New folder'')
      | Removed i \<Rightarrow> ''Removed bookmark (ID: '' @ i @ '')''
      | Moved i \<Rightarrow> ''Moved bookmark (ID: '' @ i @ '')''
      | Changed i \<Rightarrow> ''Modified bookmark (ID: '' @ i @ '')''
      | Reordered i \<Rightarrow> ''Reordered bookmarks in folder (ID: '' @ i @ '')''
      | Import_began \<Rightarrow> ''Started bookmark import''
      | Import_ended \<Rightarrow> ''Completed bookmark import'')"
| "generateCommitMessage chs =
     ''Bulk bookmark changes: '' @
       join '', '' (map (\<lambda>(ev, n). toString_radix 10 n @ '' '' @ ev) (eventCounts chs))"

text \<open>
  \<open>storeChangeHistory\<close>: the new entry is put in front (\<open>unshift\<close>) and the list is cut to
  its first 100 entries (\<open>splice(100)\<close>) before it is written back.
\<close>

definition storeChangeHistory :: "store \<Rightarrow> change list \<Rightarrow> nat \<Rightarrow> store" where
  "storeChangeHistory st chs now =
     (let history0 = (case changeHistory st of None \<Rightarrow> [] | Some h \<Rightarrow> h);
          historyEntry = \<lparr>entry_timestamp = now, changes = chs,
                           commitMessage = generateCommitMessage chs\<rparr>;
          history1 = historyEntry # history0;
          history2 = (if length history1 > 100 then take 100 history1 else history1)
      in st\<lparr>changeHistory := Some history2\<rparr>)"

text \<open>
  What the tracker takes from its surroundings: the platform's \<open>JSON.stringify\<close>, the
  bookmark tree that \<open>chrome.bookmarks.getTree()\<close> answers with at a given time, and the
  time that the answer to a \<open>getTree\<close> call and to a storage call takes to arrive.
\<close>

record env =
  stringify :: "json \<Rightarrow> string"
  getTree :: "nat \<Rightarrow> json"
  tree_latency :: nat
  storage_latency :: nat

text \<open>
  \<open>processBufferedChanges\<close> is an \<open>async\<close> function: at each \<open>await\<close> it is suspended
  until the answer arrives, and events are handled meanwhile. A run that has found the
  buffer non-empty is suspended at one of five places, in this order: at
  \<open>await chrome.bookmarks.getTree()\<close>; inside \<open>createCommit\<close> at the \<open>await Promise.all\<close>
  of its four storage reads, holding the tree, the commit message, the time at which
  \<open>createCommit\<close> was called, and what the reads issued at that time return; inside
  \<open>createCommit\<close> at the \<open>await\<close> of its storage write; inside \<open>storeChangeHistory\<close> at the
  \<open>await\<close> of its storage read, holding what that read returns and the array it was passed;
  and inside \<open>storeChangeHistory\<close> at the \<open>await\<close> of its storage write. The array passed to
  \<open>storeChangeHistory\<close> is \<open>this.pendingChanges\<close> itself, so changes pushed meanwhile are
  in it: it is \<open>None\<close> as long as it is the tracker's array, and holds its contents once
  the tracker's \<open>pendingChanges\<close> has been replaced by a new array. Storage calls take
  effect in the order in which they are issued: a read returns the storage as it is when
  the read is issued, and a write is in the storage once it is issued.
\<close>

datatype run =
    Awaiting_tree
  | Awaiting_commit_reads json string nat store
  | Awaiting_commit_write
  | Awaiting_history_read "change list option" "history_entry list option"
  | Awaiting_history_write

text \<open>
  A suspended run resumes at time \<open>now\<close> and runs up to its next \<open>await\<close>, or to its
  end. The result is the commit that \<open>createCommit\<close> reports (\<open>Created commit\<close> with the
  hash and the message) if this part of the run created one, the tracker afterwards, and
  the place where the run is suspended next, if it is. After the tree has arrived the
  message is generated from the buffer as it is then, and \<open>createCommit\<close> computes the
  hash and issues its reads. After the reads have arrived \<open>createCommit\<close> builds the
  commit and writes the repository and the commit table; when it throws, the \<open>catch\<close> of
  \<open>processBufferedChanges\<close> logs the error and the run is over. After the write
  \<open>storeChangeHistory\<close> is called and issues its read. After that read has arrived the
  entry is built from the array as it is then, and the log is written. After that write
  \<open>pendingChanges\<close> is replaced by a new empty array and \<open>changeBuffer\<close> is set to \<open>null\<close>.
\<close>

definition resume ::
  "env \<Rightarrow> tracker \<Rightarrow> nat \<Rightarrow> run \<Rightarrow> (string \<times> string) option \<times> tracker \<times> run option" where
  "resume ev tr now r =
     (case r of
        Awaiting_tree \<Rightarrow>
          (None, tr,
           Some (Awaiting_commit_reads (getTree ev now)
                   (generateCommitMessage (pendingChanges tr)) now (storage (gitManager tr))))
      | Awaiting_commit_reads bookmarkTree msg called snapshot \<Rightarrow>
          (case createCommit (stringify ev) snapshot
                  \<lparr>at_hash_input = called, at_hash_suffix = called,
                   at_author = now, at_committer = now\<rparr>
                  bookmarkTree msg ''user'' of
             Inl e \<Rightarrow> (None, tr, None)
           | Inr (commitHash, st) \<Rightarrow>
               (Some (commitHash, msg),
                tr\<lparr>gitManager := (gitManager tr)\<lparr>storage :=
                       (storage (gitManager tr))\<lparr>bookmark_git_repo := bookmark_git_repo st,
                          bookmark_commits := bookmark_commits st\<rparr>\<rparr>\<rparr>,
                Some Awaiting_commit_write))
      | Awaiting_commit_write \<Rightarrow>
          (None, tr, Some (Awaiting_history_read None (changeHistory (storage (gitManager tr)))))
      | Awaiting_history_read passed snapshot \<Rightarrow>
          (let changes_arg = (case passed of None \<Rightarrow> pendingChanges tr | Some cs \<Rightarrow> cs);
               st = storage (gitManager tr);
               written = storeChangeHistory (st\<lparr>changeHistory := snapshot\<rparr>) changes_arg now
           in (None,
               tr\<lparr>gitManager := (gitManager tr)\<lparr>storage :=
                      st\<lparr>changeHistory := changeHistory written\<rparr>\<rparr>\<rparr>,
               Some Awaiting_history_write))
      | Awaiting_history_write \<Rightarrow>
          (None, tr\<lparr>pendingChanges := [], changeBuffer := None\<rparr>, None))"

definition places_left :: "run \<Rightarrow> nat" where
  "places_left r =
     (case r of Awaiting_tree \<Rightarrow> 5 | Awaiting_commit_reads d m t st \<Rightarrow> 4
      | Awaiting_commit_write \<Rightarrow> 3 | Awaiting_history_read p h \<Rightarrow> 2
      | Awaiting_history_write \<Rightarrow> 1)"

lemma resume_places_left:
  "(made, tr', Some r') = resume ev tr now r \<Longrightarrow> places_left r' < places_left r"
  by (cases r) (auto simp: resume_def places_left_def Let_def split: sum.splits)

lemma places_left_pos: "0 < places_left r"
  by (cases r) (simp_all add: places_left_def)

text \<open>
  A run that nothing interrupts, with every answer arriving at once: from a place where
  it is suspended to its end, all at time \<open>now\<close>, keeping the commit reported.
\<close>

function run_through ::
  "env \<Rightarrow> nat \<Rightarrow> (string \<times> string) option \<times> tracker \<times> run option
     \<Rightarrow> (string \<times> string) option \<times> tracker" where
  "run_through ev now (made, tr, None) = (made, tr)"
| "run_through ev now (made, tr, Some r) =
     (case resume ev tr now r of
        (made', tr', suspended) \<Rightarrow>
          run_through ev now
            (case made' of None \<Rightarrow> made | Some c \<Rightarrow> Some c, tr', suspended))"
  by pat_completeness auto
termination
  by (relation "measure (\<lambda>(ev, now, made, tr, suspended).
        case suspended of None \<Rightarrow> 0 | Some r \<Rightarrow> places_left r)")
     (auto dest: resume_places_left simp: places_left_pos split: option.splits)

text \<open>
  \<open>processBufferedChanges\<close>, called at time \<open>now\<close> and run to its end with nothing handled
  between its awaits and every clock reading \<open>now\<close>. The first component is the commit
  that was created, if one was.
\<close>

definition processBufferedChanges ::
  "env \<Rightarrow> tracker \<Rightarrow> nat \<Rightarrow> (string \<times> string) option \<times> tracker" where
  "processBufferedChanges ev tr now =
     (if pendingChanges tr = [] then (None, tr)
      else run_through ev now (None, tr, Some Awaiting_tree))"

text \<open>
  The tracker together with the timeouts it has pending, as pairs of a timer id and the
  time the timeout is due, the next free timer id, and the runs of
  \<open>processBufferedChanges\<close> that are suspended, each with the time at which the answer it
  awaits arrives.
\<close>

record world =
  the_tracker :: tracker
  timers :: "(nat \<times> nat) list"
  next_timer :: nat
  runs :: "(nat \<times> run) list"

text \<open>
  \<open>handleBookmarkChange\<close> at time \<open>now\<close>: the change is pushed, a timeout that is held in
  \<open>changeBuffer\<close> is cleared, and a new one is set \<open>bufferDelay\<close> later.
\<close>

definition handleBookmarkChange :: "world \<Rightarrow> nat \<Rightarrow> bookmark_event \<Rightarrow> world" where
  "handleBookmarkChange w now e =
     (let tr = the_tracker w;
          pending = pendingChanges tr @ [\<lparr>change_timestamp = now, event = e\<rparr>];
          cleared = (case changeBuffer tr of
                       None \<Rightarrow> timers w
                     | Some i \<Rightarrow> filter (\<lambda>(j, due). j \<noteq> i) (timers w));
          i' = next_timer w
      in w\<lparr>the_tracker := tr\<lparr>pendingChanges := pending, changeBuffer := Some i'\<rparr>,
           timers := cleared @ [(i', now + bufferDelay tr)],
           next_timer := Suc i'\<rparr>)"

text \<open>
  A timeout fires, at the time it is due: it leaves the pending timeouts, and its callback
  calls \<open>processBufferedChanges\<close>, which returns at once on an empty buffer and otherwise
  calls \<open>getTree\<close> and is suspended.
\<close>

definition timeout_fires :: "env \<Rightarrow> world \<Rightarrow> nat \<times> nat \<Rightarrow> world" where
  "timeout_fires ev w tm =
     (let rest = filter (\<lambda>(j, due). j \<noteq> fst tm) (timers w)
      in if pendingChanges (the_tracker w) = [] then w\<lparr>timers := rest\<rparr>
         else w\<lparr>timers := rest,
                runs := runs w @ [(snd tm + tree_latency ev, Awaiting_tree)]\<rparr>)"

text \<open>
  The answer that a suspended run awaits arrives, and the run goes on to its next
  \<open>await\<close>. When the run replaces \<open>pendingChanges\<close> by a new array, the other runs that were
  passed the old array keep it, with the contents it has.
\<close>

definition latency :: "env \<Rightarrow> run \<Rightarrow> nat" where
  "latency ev r = (case r of Awaiting_tree \<Rightarrow> tree_latency ev | _ \<Rightarrow> storage_latency ev)"

definition keep_array :: "change list \<Rightarrow> run \<Rightarrow> run" where
  "keep_array cs r =
     (case r of Awaiting_history_read None h \<Rightarrow> Awaiting_history_read (Some cs) h | _ \<Rightarrow> r)"

definition run_resumes :: "env \<Rightarrow> world \<Rightarrow> nat \<times> run \<Rightarrow> world" where
  "run_resumes ev w sr =
     (let others = remove1 sr (runs w);
          others' = (case snd sr of
                       Awaiting_history_write \<Rightarrow>
                         map (\<lambda>(t, q). (t, keep_array (pendingChanges (the_tracker w)) q)) others
                     | _ \<Rightarrow> others)
      in case resume ev (the_tracker w) (fst sr) (snd sr) of
           (made, tr', suspended) \<Rightarrow>
             w\<lparr>the_tracker := tr',
                runs := others' @ (case suspended of None \<Rightarrow> []
                                    | Some r' \<Rightarrow> [(fst sr + latency ev r', r')])\<rparr>)"

text \<open>
  What happens next, up to time \<open>t\<close>: of the timeouts that are due and the answers that
  have arrived by then, the earliest; of two at the same time, an answer goes before a
  timeout, and otherwise the one that was set first.
\<close>

datatype action = Timeout "nat \<times> nat" | Answer "nat \<times> run"

fun action_time :: "action \<Rightarrow> nat" where
  "action_time (Timeout tm) = snd tm"
| "action_time (Answer sr) = fst sr"

fun earliest :: "action list \<Rightarrow> action option" where
  "earliest [] = None"
| "earliest (a # as) =
     (case earliest as of
        None \<Rightarrow> Some a
      | Some b \<Rightarrow> if action_time b < action_time a then Some b else Some a)"

definition next_action :: "world \<Rightarrow> nat \<Rightarrow> action option" where
  "next_action w t =
     earliest (filter (\<lambda>a. action_time a \<le> t) (map Answer (runs w) @ map Timeout (timers w)))"

definition work_left :: "world \<Rightarrow> nat" where
  "work_left w = 6 * length (timers w) + sum_list (map (\<lambda>sr. places_left (snd sr)) (runs w))"

lemma earliest_mem: "earliest as = Some a \<Longrightarrow> a \<in> set as"
  by (induction as arbitrary: a) (auto split: option.splits if_splits)

lemma next_action_mem:
  "next_action w t = Some (Timeout tm) \<Longrightarrow> tm \<in> set (timers w)"
  "next_action w t = Some (Answer sr) \<Longrightarrow> sr \<in> set (runs w)"
  by (auto simp: next_action_def dest!: earliest_mem)

lemma timeout_fires_work_left:
  assumes "tm \<in> set (timers w)"
  shows "work_left (timeout_fires ev w tm) < work_left w"
proof -
  have "length (filter (\<lambda>(j, due). j \<noteq> fst tm) (timers w)) < length (timers w)"
    using assms by (intro length_filter_less[of tm]) auto
  then show ?thesis
    by (simp add: timeout_fires_def work_left_def Let_def places_left_def)
qed

lemma sum_list_remove1_places:
  "sr \<in> set rs \<Longrightarrow>
     sum_list (map (\<lambda>sr. places_left (snd sr)) (remove1 sr rs)) + places_left (snd sr)
       = sum_list (map (\<lambda>sr. places_left (snd sr)) rs)"
  by (induction rs) auto

lemma places_left_keep_array [simp]: "places_left (keep_array cs r) = places_left r"
  by (auto simp: keep_array_def places_left_def split: run.splits option.splits)

lemma run_resumes_work_left:
  assumes "sr \<in> set (runs w)"
  shows "work_left (run_resumes ev w sr) < work_left w"
proof -
  obtain made tr' nx where r: "resume ev (the_tracker w) (fst sr) (snd sr) = (made, tr', nx)"
    by (cases "resume ev (the_tracker w) (fst sr) (snd sr)") auto
  have pos: "0 < places_left (snd sr)" by (rule places_left_pos)
  have less: "(case nx of None \<Rightarrow> 0 | Some r' \<Rightarrow> places_left r') < places_left (snd sr)"
    using resume_places_left[of made tr' _ ev "the_tracker w" "fst sr" "snd sr"] r pos
    by (cases nx) auto
  have others: "sum_list (map (\<lambda>sr. places_left (snd sr))
      (case snd sr of
         Awaiting_history_write \<Rightarrow>
           map (\<lambda>(t, q). (t, keep_array (pendingChanges (the_tracker w)) q)) (remove1 sr (runs w))
       | _ \<Rightarrow> remove1 sr (runs w)))
      = sum_list (map (\<lambda>sr. places_left (snd sr)) (remove1 sr (runs w)))"
    by (cases "snd sr") (simp_all add: comp_def case_prod_beta)
  show ?thesis
    using sum_list_remove1_places[OF assms] less others
    by (cases nx) (simp_all add: run_resumes_def work_left_def Let_def r)
qed

text \<open>
  Everything that happens up to time \<open>t\<close>, in order: the timeouts that fire and the
  answers that arrive, including the answers to what these have set off.
\<close>

function advance :: "env \<Rightarrow> world \<Rightarrow> nat \<Rightarrow> world" where
  "advance ev w t =
     (case next_action w t of
        None \<Rightarrow> w
      | Some (Timeout tm) \<Rightarrow> advance ev (timeout_fires ev w tm) t
      | Some (Answer sr) \<Rightarrow> advance ev (run_resumes ev w sr) t)"
  by pat_completeness auto
termination
  by (relation "measure (\<lambda>(ev, w, t). work_left w)")
     (auto dest: next_action_mem intro: timeout_fires_work_left run_resumes_work_left)

declare advance.simps [simp del]

text \<open>
  The tracker receives events at the given times: what is due before an event, or
  exactly when it arrives, happens before the event is handled.
\<close>

fun receive :: "env \<Rightarrow> world \<Rightarrow> (nat \<times> bookmark_event) list \<Rightarrow> world" where
  "receive ev w [] = w"
| "receive ev w ((t, e) # rest) =
     receive ev (handleBookmarkChange (advance ev w t) t e) rest"

section \<open>Options page: import of a backup file\<close>

definition validateBackupData :: "backup_data \<Rightarrow> bool" where
  "validateBackupData d =
     (repository d \<noteq> None \<and> commits d \<noteq> None \<and>
      (case version d of None \<Rightarrow> False | Some v \<Rightarrow> v \<noteq> []))"

text \<open>
  \<open>handleFileImport\<close> on a parsed file, followed by the confirmation dialog it opens:
  \<open>confirm\<close> tells whether the user confirms, which runs
  \<open>OptionsController.importRepository\<close> and through it the tracker's \<open>importRepository\<close>.
  The result is the toast shown, if any, and the tracker afterwards.
\<close>

definition handleFileImport ::
  "backup_data \<Rightarrow> bool \<Rightarrow> tracker \<Rightarrow> nat \<Rightarrow> string option \<times> tracker" where
  "handleFileImport d confirm tr now =
     (if \<not> validateBackupData d then (Some ''Invalid backup file format'', tr)
      else if \<not> confirm then (None, tr)
      else (case importRepository d tr now of
              (res, tr') \<Rightarrow>
                (if success res then (Some ''Repository imported successfully'', tr')
                 else (Some (or_default (error_message res) ''Failed to import repository''),
                       tr'))))"

section \<open>Definitions used to state the properties\<close>

text \<open>
  For the Stat Engine: \<open>Array.isArray\<close>; whether a node has a truthy \<open>url\<close>; the value of
  its \<open>children\<close> property (\<open>null\<close> for a node without one); trees no array of which has
  a \<open>null\<close> element; the all-zero statistics; and the counts of a subtree added to the
  counters so far.
\<close>

definition is_array :: "json \<Rightarrow> bool" where
  "is_array v = (case v of JArr ns \<Rightarrow> True | _ \<Rightarrow> False)"

definition has_url :: "json \<Rightarrow> bool" where
  "has_url node = (case get_prop node ''url'' of Inr (Some u) \<Rightarrow> truthy u | _ \<Rightarrow> False)"

definition children_of :: "json \<Rightarrow> json" where
  "children_of node = (case get_prop node ''children'' of Inr (Some ch) \<Rightarrow> ch | _ \<Rightarrow> JNull)"

function null_free :: "json \<Rightarrow> bool" and nodes_null_free :: "json list \<Rightarrow> bool" where
  "null_free nodes = (case nodes of JArr ns \<Rightarrow> nodes_null_free ns | _ \<Rightarrow> True)"
| "nodes_null_free [] = True"
| "nodes_null_free (node # ns) =
     (node \<noteq> JNull \<and> null_free (children_of node) \<and> nodes_null_free ns)"
  by pat_completeness auto
termination
  by (relation "measure (\<lambda>x. case x of Inl n \<Rightarrow> 2 * size n + 1
                                       | Inr ns \<Rightarrow> 2 * size_list size ns)")
     (auto simp: children_of_def dest: get_prop_size split: sum.splits option.splits)

definition zero_stats :: stats where
  "zero_stats = \<lparr>totalBookmarks = 0, totalFolders = 0, totalItems = 0\<rparr>"

definition add_acc :: "nat \<times> nat \<Rightarrow> error + nat \<times> nat \<Rightarrow> error + nat \<times> nat" where
  "add_acc acc r = (case r of Inl e \<Rightarrow> Inl e | Inr (b, f) \<Rightarrow> Inr (fst acc + b, snd acc + f))"

definition to_stats :: "error + nat \<times> nat \<Rightarrow> error + stats" where
  "to_stats r = (case r of Inl e \<Rightarrow> Inl e
     | Inr (b, f) \<Rightarrow> Inr \<lparr>totalBookmarks = b, totalFolders = f, totalItems = b + f\<rparr>)"

definition sample_tree :: json where
  "sample_tree = JArr [JObj [(''title'', JStr ''Bar''), (''children'',
     JArr [JObj [(''title'', JStr ''a''), (''url'', JStr ''https://a.example'')],
           JObj [(''title'', JStr ''Empty''), (''children'', JArr [])]])]]"

text \<open>\<open>createCommit\<close> called once for each element of a list of calls, in sequence.\<close>

fun createCommits ::
  "(json \<Rightarrow> string) \<Rightarrow> store \<Rightarrow> (commit_clock \<times> json \<times> string \<times> string) list
     \<Rightarrow> error + string list \<times> store" where
  "createCommits sf st [] = Inr ([], st)"
| "createCommits sf st ((clk, d, m, a) # calls) =
     (case createCommit sf st clk d m a of
        Inl e \<Rightarrow> Inl e
      | Inr (h, st') \<Rightarrow>
          (case createCommits sf st' calls of
             Inl e \<Rightarrow> Inl e
           | Inr (hs, st'') \<Rightarrow> Inr (h # hs, st'')))"

text \<open>
  The head invariant: the head is \<open>h\<close>, the read \<open>branches[currentBranch]\<close> yields \<open>h\<close>,
  and \<open>h\<close> is a key of the commit table, whose commit carries \<open>h\<close> as its hash.
\<close>

definition head_tracked :: "store \<Rightarrow> string \<Rightarrow> bool" where
  "head_tracked st h =
     (case bookmark_git_repo st of
        None \<Rightarrow> False
      | Some repo \<Rightarrow>
          head repo = Some h
          \<and> object_get (branches repo) (getCurrentBranch st) = Own (Some h)
          \<and> (case commit_table st h of None \<Rightarrow> False | Some cm \<Rightarrow> hash cm = h))"

text \<open>The head and the branch table of the repository record, if there is one.\<close>

definition repo_head :: "store \<Rightarrow> string option" where
  "repo_head st = (case bookmark_git_repo st of None \<Rightarrow> None | Some r \<Rightarrow> head r)"

definition repo_branches :: "store \<Rightarrow> (string \<rightharpoonup> string option)" where
  "repo_branches st = (case bookmark_git_repo st of None \<Rightarrow> Map.empty | Some r \<Rightarrow> branches r)"

text \<open>The commit object that \<open>createCommit\<close> builds.\<close>

definition new_commit :: "(json \<Rightarrow> string) \<Rightarrow> store \<Rightarrow> commit_clock \<Rightarrow> json \<Rightarrow> string \<Rightarrow> commit" where
  "new_commit sf st clk d m =
     (let h = generateHash (toString_radix 10 (at_hash_input clk) @ m @ sf d) (at_hash_suffix clk);
          cfg_user = (case git_config st of None \<Rightarrow> None | Some cfg \<Rightarrow> user cfg);
          nm = or_default (map_option user_name cfg_user) ''Bookmark Git Tracker'';
          em = or_default (map_option user_email cfg_user) ''bookmark-tracker@extension.local''
      in \<lparr>hash = h, message = m,
          author = \<lparr>name = nm, email = em, timestamp = at_author clk\<rparr>,
          committer = \<lparr>name = nm, email = em, timestamp = at_committer clk\<rparr>,
          parent = (case bookmark_git_repo st of None \<Rightarrow> None | Some r \<Rightarrow> head r),
          tree = h @ ''_tree'', data = d,
          stats = (case calculateStats d of Inl e \<Rightarrow> \<lparr>totalBookmarks = 0, totalFolders = 0, totalItems = 0\<rparr> | Inr s \<Rightarrow> s)\<rparr>)"

text \<open>The change-history log lists its entries from the newest to the oldest.\<close>

definition newest_first :: "history_entry list \<Rightarrow> bool" where
  "newest_first h = sorted_wrt (\<lambda>a b. entry_timestamp b \<le> entry_timestamp a) h"

text \<open>
  Sample inputs: a freshly created repository, a clock that stands still, and
  \<open>JSON.stringify\<close> as far as the samples need it: their trees are all the empty array,
  which it renders as \<open>[]\<close>.
\<close>

definition stringify_sample :: "json \<Rightarrow> string" where
  "stringify_sample d = ''[]''"

definition st_fresh :: store where
  "st_fresh = ensureRepository empty_store 1000"

definition clk_at :: "nat \<Rightarrow> commit_clock" where
  "clk_at t = \<lparr>at_hash_input = t, at_hash_suffix = t, at_author = t, at_committer = t\<rparr>"

text \<open>
  The repository after one commit of an empty tree on the fresh repository, the hash of
  that commit, a tracker on a given storage, a backup file without \<open>commits\<close>, and one
  without \<open>version\<close>.
\<close>

definition h_sample :: string where
  "h_sample = hash (new_commit stringify_sample st_fresh (clk_at 2000) (JArr []) ''m'')"

definition st_committed :: store where
  "st_committed = snd (projr (createCommit stringify_sample st_fresh (clk_at 2000) (JArr []) ''m'' ''user''))"

definition tracker_of :: "store \<Rightarrow> tracker" where
  "tracker_of st = \<lparr>gitManager = \<lparr>gm_initialized = True, storage = st\<rparr>, isInitialized = True,
     pendingChanges = [], changeBuffer = None, bufferDelay = 1000\<rparr>"

definition bundle_without_commits :: backup_data where
  "bundle_without_commits = \<lparr>repository = bookmark_git_repo st_fresh, commits = None,
     currentBranch = Some ''main'', config = None, exportDate = None, version = Some ''1.0.0''\<rparr>"

definition bundle_without_version :: backup_data where
  "bundle_without_version = \<lparr>repository = bookmark_git_repo st_fresh,
     commits = Some Map.empty, currentBranch = Some ''main'', config = Some default_config,
     exportDate = None, version = None\<rparr>"



text \<open>
  A backup file of the fresh repository whose \<open>currentBranch\<close> is the string
  \<open>__proto__\<close>, the storage after the options page has imported it, and the hash and the
  storage of a commit made there.
\<close>

definition bundle_proto :: backup_data where
  "bundle_proto = \<lparr>repository = bookmark_git_repo st_fresh, commits = Some Map.empty,
     currentBranch = Some ''__proto__'', config = Some default_config,
     exportDate = Some ''2025-01-01T00:00:00.000Z'', version = Some ''1.0.0''\<rparr>"

definition st_proto :: store where
  "st_proto = storage (gitManager
     (snd (handleFileImport bundle_proto True (tracker_of st_fresh) 3000)))"

definition h_proto :: string where
  "h_proto = hash (new_commit stringify_sample st_proto (clk_at 4000) (JArr []) ''m'')"

definition st_proto_committed :: store where
  "st_proto_committed =
     snd (projr (createCommit stringify_sample st_proto (clk_at 4000) (JArr []) ''m'' ''user''))"

text \<open>
  The repository after a second commit of the same tree with the same message: in the
  same millisecond as the first, and one millisecond later, with the hash of the latter.
\<close>

definition st_twice :: store where
  "st_twice = snd (projr (createCommit stringify_sample st_committed (clk_at 2000) (JArr []) ''m'' ''user''))"

definition st_later :: store where
  "st_later = snd (projr (createCommit stringify_sample st_committed (clk_at 2001) (JArr []) ''m'' ''user''))"

definition h_later :: string where
  "h_later = hash (new_commit stringify_sample st_committed (clk_at 2001) (JArr []) ''m'')"

text \<open>
  For the history walk: the commits reached from a hash by following \<open>parent\<close> links, at
  most \<open>n\<close> of them, up to the first hash that is null, empty or not a key of the commit
  table; whether a hash can be resolved to a commit of the table; the hash at which the
  walk stands after a list of commits; what is thrown within the first \<open>n\<close> rounds of the
  walk, if anything: a TypeError at a hash that is not a key of the table but a name
  inherited from \<open>Object.prototype\<close>, a RangeError at a commit whose timestamp \<open>Date\<close>
  cannot represent; and the commit tables in which every commit is stored under its own
  hash, as \<open>createCommit\<close> stores it.
\<close>

fun chain :: "(string \<rightharpoonup> commit) \<Rightarrow> string option \<Rightarrow> nat \<Rightarrow> commit list" where
  "chain c cur 0 = []"
| "chain c cur (Suc k) =
     (case cur of
        None \<Rightarrow> []
      | Some h \<Rightarrow>
          if h = [] then []
          else (case c h of None \<Rightarrow> [] | Some cm \<Rightarrow> cm # chain c (parent cm) k))"



fun throws :: "(string \<rightharpoonup> commit) \<Rightarrow> string option \<Rightarrow> nat \<Rightarrow> error option" where
  "throws c cur 0 = None"
| "throws c cur (Suc k) =
     (case cur of
        None \<Rightarrow> None
      | Some h \<Rightarrow>
          if h = [] then None
          else (case object_get c h of
                  Absent \<Rightarrow> None
                | Inherited \<Rightarrow> Some TypeError
                | Own cm \<Rightarrow>
                    if date_representable (timestamp (committer cm))
                    then throws c (parent cm) k
                    else Some RangeError))"










text \<open>
  For the Change Coalescer: the entry pushed for an event received at a time, and the
  hash and message of the commit that an uninterrupted run of \<open>processBufferedChanges\<close>
  at a time creates for a buffer.
\<close>

definition mk_change :: "nat \<times> bookmark_event \<Rightarrow> change" where
  "mk_change te = \<lparr>change_timestamp = fst te, event = snd te\<rparr>"

definition commit_for :: "env \<Rightarrow> nat \<times> change list \<Rightarrow> string \<times> string" where
  "commit_for ev b =
     (generateHash (toString_radix 10 (fst b) @ generateCommitMessage (snd b)
                      @ stringify ev (getTree ev (fst b))) (fst b),
      generateCommitMessage (snd b))"

text \<open>
  Sample surroundings and inputs: a tree source that always returns the empty tree, with
  answers that arrive at once; an idle tracker on the fresh repository; a tracker with a
  pending change on a storage without repository record, and one with two pending changes
  on the fresh repository.
\<close>

definition env0 :: env where
  "env0 = \<lparr>stringify = stringify_sample, getTree = (\<lambda>t. JArr []),
     tree_latency = 0, storage_latency = 0\<rparr>"

definition w0 :: world where
  "w0 = \<lparr>the_tracker = tracker_of st_fresh, timers = [], next_timer = 1, runs = []\<rparr>"

text \<open>
  Two events 1020 ms apart, more than the quiet period of 1000 ms; surroundings in which
  \<open>getTree\<close> answers after 50 ms and a storage call after 10 ms, and surroundings in
  which \<open>getTree\<close> answers after 5 ms; the tracker after it has received the two events
  and has then been left alone until time 5000; and the storage that a successful
  \<open>createCommit\<close> call leaves.
\<close>

definition gap_events :: "(nat \<times> bookmark_event) list" where
  "gap_events = [(0, Created ''1'' ''Docs'' (Some ''https://a.example'')), (1020, Removed ''2'')]"

definition env_slow :: env where
  "env_slow = \<lparr>stringify = stringify_sample, getTree = (\<lambda>t. JArr []),
     tree_latency = 50, storage_latency = 10\<rparr>"

definition env_quick :: env where
  "env_quick = \<lparr>stringify = stringify_sample, getTree = (\<lambda>t. JArr []),
     tree_latency = 5, storage_latency = 10\<rparr>"

definition left_alone :: "env \<Rightarrow> world" where
  "left_alone ev = advance ev (receive ev w0 gap_events) 5000"

definition committed ::
  "(json \<Rightarrow> string) \<Rightarrow> store \<Rightarrow> commit_clock \<Rightarrow> json \<Rightarrow> string \<Rightarrow> store" where
  "committed sf st clk d m = snd (projr (createCommit sf st clk d m ''user''))"



text \<open>
  The storage states the extension can reach: from a first run on a storage without a
  repository record, by a restart, a successful commit, a reset, an import of any
  backup, a change-history entry, or the options page saving the Git configuration.
\<close>

inductive reachable :: "store \<Rightarrow> bool" where
  first_run: "bookmark_git_repo st = None \<Longrightarrow> reachable (ensureRepository st now)"
| restart: "reachable st \<Longrightarrow> reachable (ensureRepository st now)"
| commit: "reachable st \<Longrightarrow> createCommit sf st clk d m a = Inr (h, st') \<Longrightarrow> reachable st'"
| reset: "reachable (storage gm) \<Longrightarrow> reachable (storage (snd (resetRepository gm now)))"
| import: "reachable (storage (gitManager tr))
     \<Longrightarrow> reachable (storage (gitManager (snd (importRepository d tr now))))"
| history: "reachable st \<Longrightarrow> reachable (storeChangeHistory st chs now)"
| settings: "reachable st \<Longrightarrow> reachable (st\<lparr>git_config := Some cfg\<rparr>)"

section \<open>Stat Engine\<close>

lemma add_acc_simps [simp]:
  "add_acc acc (Inl e) = Inl e"
  "add_acc acc (Inr (b, f)) = Inr (fst acc + b, snd acc + f)"
  by (simp_all add: add_acc_def)

lemma countNodes_acc_step:
  assumes "\<And>n ch a. n \<in> set ns \<Longrightarrow> get_prop n ''children'' = Inr (Some ch)
             \<Longrightarrow> countItems ch a = add_acc a (countItems ch (0, 0))"
  shows "countNodes ns acc = add_acc acc (countNodes ns (0, 0))"
  using assms
proof (induction ns arbitrary: acc)
  case Nil
  show ?case by simp
next
  case (Cons node ns)
  define T where "T = countNodes ns (0, 0)"
  have tl: "\<And>a. countNodes ns a = add_acc a T"
    unfolding T_def by (rule Cons.IH) (rule Cons.prems, auto)
  have ch: "\<And>ch a. get_prop node ''children'' = Inr (Some ch)
             \<Longrightarrow> countItems ch a = add_acc a (countItems ch (0, 0))"
    by (rule Cons.prems) auto
  show ?case
  proof (cases "get_prop node ''url''")
    case (Inl e)
    then show ?thesis by simp
  next
    case url: (Inr u)
    show ?thesis
    proof (cases "get_prop node ''children''")
      case (Inl e)
      with url show ?thesis by (simp add: Let_def)
    next
      case (Inr c)
      show ?thesis
      proof (cases c)
        case None
        with url Inr show ?thesis
          by (cases T) (auto simp: Let_def tl)
      next
        case (Some chv)
        define C where "C = countItems chv (0, 0)"
        have c1: "\<And>a. countItems chv a = add_acc a C"
          unfolding C_def by (rule ch) (simp add: Inr Some)
        show ?thesis
          using url Inr Some
          by (cases T; cases C) (auto simp: Let_def tl c1 simp del: countItems.simps)
      qed
    qed
  qed
qed


lemma size_list_elem: "n \<in> set ns \<Longrightarrow> size n < Suc (size_list size ns)"
  by (induction ns) auto

lemma countItems_acc: "countItems n acc = add_acc acc (countItems n (0, 0))"
proof (induction "size n" arbitrary: n acc rule: less_induct)
  case less
  show ?case
  proof (cases n)
    case (JArr ns)
    have "countItems (JArr ns) acc = add_acc acc (countItems (JArr ns) (0, 0))"
      unfolding countItems.simps json.case
    proof (rule countNodes_acc_step)
      fix m ch a
      assume m: "m \<in> set ns" and g: "get_prop m ''children'' = Inr (Some ch)"
      have "size ch < size m" by (rule get_prop_size[OF g])
      also have "size m < size n" using size_list_elem[OF m] JArr by simp
      finally show "countItems ch a = add_acc a (countItems ch (0, 0))"
        by (rule less)
    qed
    then show ?thesis unfolding JArr .
  qed simp_all
qed

lemma countNodes_acc: "countNodes ns acc = add_acc acc (countNodes ns (0, 0))"
  by (rule countNodes_acc_step) (rule countItems_acc)

lemma calculateStats_alt: "calculateStats d = to_stats (countItems d (0, 0))"
  by (cases d) (simp_all add: calculateStats_def to_stats_def)

lemma calculateStats_not_array: "\<not> is_array d \<Longrightarrow> calculateStats d = Inr zero_stats"
  by (cases d) (simp_all add: calculateStats_def is_array_def zero_stats_def)

lemma calculateStats_total_sum:
  "calculateStats d = Inr s \<Longrightarrow> totalItems s = totalBookmarks s + totalFolders s"
  by (auto simp: calculateStats_alt to_stats_def split: sum.splits prod.splits)

lemma countItems_falsy: "\<not> truthy ch \<Longrightarrow> countItems ch a = Inr a"
  by (cases ch) auto

lemma countNodes_children:
  assumes "node \<noteq> JNull"
  shows "countNodes (node # ns) (0, 0) =
     (case countItems (children_of node) (0, 0) of
        Inl e \<Rightarrow> Inl e
      | Inr (cb, cf) \<Rightarrow>
          (case countNodes ns (0, 0) of
             Inl e \<Rightarrow> Inl e
           | Inr (rb, rf) \<Rightarrow>
               Inr ((if has_url node then 1 else 0) + cb + rb,
                    (if has_url node then 0 else 1) + cf + rf)))"
proof -
  define T where "T = countNodes ns (0, 0)"
  have tl: "\<And>a. countNodes ns a = add_acc a T"
    unfolding T_def by (rule countNodes_acc)
  obtain u c where g: "get_prop node ''url'' = Inr u" "get_prop node ''children'' = Inr c"
    using assms by (cases node) auto
  have hu: "has_url node = truthy_opt u"
    using g by (cases u) (simp_all add: has_url_def)
  show ?thesis
  proof (cases c)
    case None
    then have "children_of node = JNull" using g by (simp add: children_of_def)
    then show ?thesis
      unfolding T_def[symmetric] using g None hu
      by (cases T) (auto simp: Let_def tl)
  next
    case (Some ch)
    then have co: "children_of node = ch" using g by (simp add: children_of_def)
    define C where "C = countItems ch (0, 0)"
    have c1: "\<And>a. countItems ch a = add_acc a C"
      unfolding C_def by (rule countItems_acc)
    show ?thesis
    proof (cases "truthy ch")
      case True
      then show ?thesis
        unfolding T_def[symmetric] co C_def[symmetric] using g Some hu
        by (cases T; cases C) (auto simp: Let_def tl c1 simp del: countItems.simps)
    next
      case False
      then have "C = Inr (0, 0)" unfolding C_def by (rule countItems_falsy)
      with False show ?thesis
        unfolding T_def[symmetric] co C_def[symmetric] using g Some hu
        by (cases T) (auto simp: Let_def tl simp del: countItems.simps)
    qed
  qed
qed

lemma calculateStats_Cons:
  assumes "node \<noteq> JNull"
    and "calculateStats (children_of node) = Inr c"
    and "calculateStats (JArr ns) = Inr r"
  shows "calculateStats (JArr (node # ns)) =
     Inr \<lparr>totalBookmarks = (if has_url node then 1 else 0) + totalBookmarks c + totalBookmarks r,
          totalFolders = (if has_url node then 0 else 1) + totalFolders c + totalFolders r,
          totalItems = 1 + totalItems c + totalItems r\<rparr>"
proof -
  from assms(2) obtain cb cf where c: "countItems (children_of node) (0, 0) = Inr (cb, cf)"
    "c = \<lparr>totalBookmarks = cb, totalFolders = cf, totalItems = cb + cf\<rparr>"
    by (auto simp: calculateStats_alt to_stats_def split: sum.splits prod.splits)
  from assms(3) obtain rb rf where r: "countNodes ns (0, 0) = Inr (rb, rf)"
    "r = \<lparr>totalBookmarks = rb, totalFolders = rf, totalItems = rb + rf\<rparr>"
    by (auto simp: calculateStats_alt to_stats_def split: sum.splits prod.splits)
  have "countItems (JArr (node # ns)) (0, 0) =
      Inr ((if has_url node then 1 else 0) + cb + rb, (if has_url node then 0 else 1) + cf + rf)"
  proof -
    have "countItems (JArr (node # ns)) (0, 0) = countNodes (node # ns) (0, 0)" by simp
    also have "\<dots> = Inr ((if has_url node then 1 else 0) + cb + rb,
                           (if has_url node then 0 else 1) + cf + rf)"
      unfolding countNodes_children[OF assms(1)] c(1) r(1) by simp
    finally show ?thesis .
  qed
  then show ?thesis
    unfolding calculateStats_alt by (simp add: to_stats_def c r del: countItems.simps)
qed

lemma null_free_count:
  "null_free d \<Longrightarrow> \<exists>r. countItems d (0, 0) = Inr r"
  "nodes_null_free ns \<Longrightarrow> \<exists>r. countNodes ns (0, 0) = Inr r"
proof (induction d and ns rule: null_free_nodes_null_free.induct)
  case (1 nodes)
  then show ?case by (cases nodes) auto
next
  case 2
  show ?case by simp
next
  case (3 node ns)
  from "3.prems" have n: "node \<noteq> JNull" and c: "null_free (children_of node)"
    and t: "nodes_null_free ns" by auto
  from "3.IH"(1) n c obtain rc where rc: "countItems (children_of node) (0, 0) = Inr rc"
    by blast
  from "3.IH"(2) n c t obtain rt where rt: "countNodes ns (0, 0) = Inr rt" by blast
  show ?case
    unfolding countNodes_children[OF n] rc rt by (cases rc; cases rt) simp
qed

lemma null_free_returns:
  assumes "null_free d"
  shows "\<exists>s. calculateStats d = Inr s \<and> totalItems s = totalBookmarks s + totalFolders s"
proof -
  from null_free_count(1)[OF assms] obtain r where "countItems d (0, 0) = Inr r" by blast
  then have "\<exists>s. calculateStats d = Inr s"
    unfolding calculateStats_alt by (cases r) (simp add: to_stats_def)
  then show ?thesis using calculateStats_total_sum by blast
qed

text \<open>
  Claim C6, as stated, fails: a node with neither a \<open>url\<close> nor \<open>children\<close> does not
  contribute zero, it is counted as one folder.
\<close>

theorem calculateStats_counts_bare_node:
  "get_prop (JObj [(''title'', JStr ''x'')]) ''url'' = Inr None
   \<and> get_prop (JObj [(''title'', JStr ''x'')]) ''children'' = Inr None
   \<and> calculateStats (JArr [JObj [(''title'', JStr ''x'')]])
       = Inr \<lparr>totalBookmarks = 0, totalFolders = 1, totalItems = 1\<rparr>"
  by (simp add: calculateStats_def Let_def)

text \<open>
  Claim C6, amended. A value that is not an array gives all-zero statistics, at the top
  and as the \<open>children\<close> of a node. Every node other than \<open>null\<close> counts exactly once: as a
  bookmark when its \<open>url\<close> is truthy, as a folder otherwise, whether or not it has
  \<open>children\<close>; the counts of its \<open>children\<close> and of the nodes after it are added. On a
  tree without \<open>null\<close> elements \<open>calculateStats\<close> returns, and the total is the sum of the
  two counts.
\<close>

theorem calculateStats_classifies:
  "(\<not> is_array d \<longrightarrow> calculateStats d = Inr zero_stats)
   \<and> calculateStats (JArr []) = Inr zero_stats
   \<and> (node \<noteq> JNull \<and> calculateStats (children_of node) = Inr c
        \<and> calculateStats (JArr ns) = Inr r \<longrightarrow>
      calculateStats (JArr (node # ns)) =
        Inr \<lparr>totalBookmarks = (if has_url node then 1 else 0) + totalBookmarks c + totalBookmarks r,
             totalFolders = (if has_url node then 0 else 1) + totalFolders c + totalFolders r,
             totalItems = 1 + totalItems c + totalItems r\<rparr>)
   \<and> (null_free d' \<longrightarrow>
        (\<exists>s. calculateStats d' = Inr s \<and> totalItems s = totalBookmarks s + totalFolders s))"
proof (intro conjI impI)
  assume "\<not> is_array d"
  then show "calculateStats d = Inr zero_stats" by (rule calculateStats_not_array)
next
  show "calculateStats (JArr []) = Inr zero_stats"
    by (simp add: calculateStats_def zero_stats_def)
next
  assume "node \<noteq> JNull \<and> calculateStats (children_of node) = Inr c
        \<and> calculateStats (JArr ns) = Inr r"
  then show "calculateStats (JArr (node # ns)) =
        Inr \<lparr>totalBookmarks = (if has_url node then 1 else 0) + totalBookmarks c + totalBookmarks r,
             totalFolders = (if has_url node then 0 else 1) + totalFolders c + totalFolders r,
             totalItems = 1 + totalItems c + totalItems r\<rparr>"
    using calculateStats_Cons by blast
next
  assume "null_free d'"
  then show "\<exists>s. calculateStats d' = Inr s \<and> totalItems s = totalBookmarks s + totalFolders s"
    by (rule null_free_returns)
qed

theorem calculateStats_classifies_witness:
  "\<not> is_array (JStr ''x'') \<and> calculateStats (JStr ''x'') = Inr zero_stats
   \<and> JObj [(''title'', JStr ''a''), (''url'', JStr ''https://a.example'')] \<noteq> JNull
   \<and> calculateStats (children_of
         (JObj [(''title'', JStr ''a''), (''url'', JStr ''https://a.example'')])) = Inr zero_stats
   \<and> calculateStats (JArr [JObj [(''title'', JStr ''a''), (''url'', JStr ''https://a.example'')]])
       = Inr \<lparr>totalBookmarks = 1, totalFolders = 0, totalItems = 1\<rparr>
   \<and> null_free sample_tree
   \<and> calculateStats sample_tree = Inr \<lparr>totalBookmarks = 1, totalFolders = 2, totalItems = 3\<rparr>"
proof -
  let ?n = "JObj [(''title'', JStr ''a''), (''url'', JStr ''https://a.example'')]"
  have c: "calculateStats (children_of ?n) = Inr zero_stats"
    by (simp add: children_of_def calculateStats_def zero_stats_def)
  have e: "calculateStats (JArr []) = Inr zero_stats"
    by (simp add: calculateStats_def zero_stats_def)
  have nf: "null_free sample_tree"
    by (simp add: sample_tree_def children_of_def)
  have v: "calculateStats sample_tree = Inr \<lparr>totalBookmarks = 1, totalFolders = 2, totalItems = 3\<rparr>"
    by (simp add: sample_tree_def calculateStats_def Let_def)
  from calculateStats_classifies[of "JStr ''x''" ?n zero_stats "[]" zero_stats sample_tree] c e nf v
  show ?thesis by (simp add: is_array_def has_url_def zero_stats_def)
qed

section \<open>Hash generation\<close>

lemma digit_char_inj: "a < 16 \<Longrightarrow> b < 16 \<Longrightarrow> digit_char a = digit_char b \<Longrightarrow> a = b"
proof -
  assume a: "a < 16" and b: "b < 16" and e: "digit_char a = digit_char b"
  have d: "distinct ''0123456789abcdef''" by simp
  have l: "length ''0123456789abcdef'' = 16" by simp
  from e have "''0123456789abcdef'' ! a = ''0123456789abcdef'' ! b" by (simp only: digit_char_def)
  with d a b l show "a = b" by (simp only: nth_eq_iff_index_eq)
qed

lemma toString_16_step:
  "toString_radix 16 n = (if n < 16 then [digit_char n]
     else toString_radix 16 (n div 16) @ [digit_char (n mod 16)])"
  by (subst toString_radix.simps) simp

lemma toString_16_nonempty [simp]:
  "toString_radix 16 n \<noteq> []" "[] \<noteq> toString_radix 16 n"
  by (subst toString_16_step, simp)+

lemma toString_16_inj: "toString_radix 16 n = toString_radix 16 m \<Longrightarrow> n = m"
proof (induction n arbitrary: m rule: less_induct)
  case (less n)
  show ?case
  proof (cases "n < 16")
    case n: True
    show ?thesis
    proof (cases "m < 16")
      case True
      with n less.prems show ?thesis
        by (simp add: toString_16_step[of n] toString_16_step[of m] digit_char_inj)
    next
      case False
      with n less.prems show ?thesis
        by (simp add: toString_16_step[of n] toString_16_step[of m])
    qed
  next
    case n: False
    show ?thesis
    proof (cases "m < 16")
      case True
      with n less.prems show ?thesis
        by (simp add: toString_16_step[of n] toString_16_step[of m])
    next
      case False
      with n less.prems have
        1: "toString_radix 16 (n div 16) = toString_radix 16 (m div 16)" and
        2: "digit_char (n mod 16) = digit_char (m mod 16)"
        by (simp_all add: toString_16_step[of n] toString_16_step[of m])
      from n have "n div 16 < n" by simp
      from less.IH[OF this 1] have d: "n div 16 = m div 16" .
      from 2 have r: "n mod 16 = m mod 16" by (rule digit_char_inj[rotated 2]) simp_all
      from d r show ?thesis by (metis div_mult_mod_eq)
    qed
  qed
qed

lemma toString_16_length: "n < 16 ^ k \<Longrightarrow> 0 < k \<Longrightarrow> length (toString_radix 16 n) \<le> k"
proof (induction k arbitrary: n)
  case 0
  then show ?case by simp
next
  case (Suc k)
  show ?case
  proof (cases "n < 16")
    case True
    then show ?thesis by (simp add: toString_16_step[of n])
  next
    case False
    with Suc.prems have k: "0 < k" by (cases k) auto
    from Suc.prems have "n div 16 < 16 ^ k" by (simp add: less_mult_imp_div_less mult.commute)
    from Suc.IH[OF this k] False show ?thesis by (simp add: toString_16_step[of n])
  qed
qed

lemma abs_sint_32: "nat \<bar>sint (w :: 32 word)\<bar> < 16 ^ 8"
proof -
  have "- (2 ^ 31) \<le> sint w" "sint w < 2 ^ 31"
    using sint_ge[of w] sint_lt[of w] by simp_all
  then show ?thesis by simp
qed

lemma padStart_length: "length s \<le> n \<Longrightarrow> length (padStart n c s) = n"
  by (simp add: padStart_def)

lemma generateHash_prefix:
  "length (padStart 8 (CHR ''0'') (toString_radix 16 (nat \<bar>sint (hash_loop 0 input)\<bar>))) = 8"
  by (rule padStart_length) (rule toString_16_length[OF abs_sint_32], simp)

lemma generateHash_time_inj:
  assumes "generateHash s1 t1 = generateHash s2 t2"
  shows "t1 = t2"
proof -
  from assms have "toString_radix 16 t1 = toString_radix 16 t2"
    unfolding generateHash_def
    using generateHash_prefix[of s1] generateHash_prefix[of s2] by simp
  then show ?thesis by (rule toString_16_inj)
qed

section \<open>Commit creation\<close>

lemma createCommit_eq:
  assumes "bookmark_git_repo st = Some repo" "calculateStats d = Inr sts"
  shows "createCommit sf st clk d m a =
     Inr (hash (new_commit sf st clk d m),
          st\<lparr>bookmark_git_repo := Some (repo\<lparr>head := Some (hash (new_commit sf st clk d m)),
                   branches := object_set (branches repo) (getCurrentBranch st)
                     (Some (hash (new_commit sf st clk d m)))\<rparr>),
                bookmark_commits := Some ((commit_table st)(hash (new_commit sf st clk d m) \<mapsto> new_commit sf st clk d m))\<rparr>)"
  using assms
  by (simp add: createCommit_def new_commit_def Let_def commit_table_def getCurrentBranch_def)

lemma createCommit_fails:
  "bookmark_git_repo st = None \<or> calculateStats d = Inl e \<Longrightarrow> \<exists>e'. createCommit sf st clk d m a = Inl e'"
  by (auto simp: createCommit_def Let_def split: option.splits sum.splits)

lemma createCommit_Inr:
  assumes "createCommit sf st clk d m a = Inr (h, st')"
  shows "\<exists>repo sts. bookmark_git_repo st = Some repo \<and> calculateStats d = Inr sts
     \<and> h = hash (new_commit sf st clk d m)
     \<and> st' = st\<lparr>bookmark_git_repo := Some (repo\<lparr>head := Some h,
                   branches := object_set (branches repo) (getCurrentBranch st) (Some h)\<rparr>),
                bookmark_commits := Some ((commit_table st)(h \<mapsto> new_commit sf st clk d m))\<rparr>"
proof (cases "bookmark_git_repo st")
  case None
  with assms createCommit_fails[of st d _ sf clk m a] show ?thesis by auto
next
  case (Some repo)
  show ?thesis
  proof (cases "calculateStats d")
    case (Inl e)
    with assms createCommit_fails[of st d e sf clk m a] show ?thesis by auto
  next
    case (Inr sts)
    from createCommit_eq[OF Some Inr, of sf clk m a] assms
    have "h = hash (new_commit sf st clk d m)"
      and "st' = st\<lparr>bookmark_git_repo := Some (repo\<lparr>head := Some (hash (new_commit sf st clk d m)),
                   branches := object_set (branches repo) (getCurrentBranch st)
                     (Some (hash (new_commit sf st clk d m)))\<rparr>),
                bookmark_commits := Some ((commit_table st)(hash (new_commit sf st clk d m) \<mapsto> new_commit sf st clk d m))\<rparr>"
      by simp_all
    with Some Inr show ?thesis by simp
  qed
qed

lemma new_commit_parent:
  "bookmark_git_repo st = Some repo \<Longrightarrow> parent (new_commit sf st clk d m) = head repo"
  by (simp add: new_commit_def Let_def)

lemma object_get_set:
  "k \<noteq> ''__proto__'' \<or> obj k \<noteq> None \<Longrightarrow> object_get (object_set obj k v) k = Own v"
  by (auto simp: object_get_def object_set_def)

lemma createCommit_head_tracked:
  assumes "createCommit sf st clk d m a = Inr (h, st')"
    and "getCurrentBranch st \<noteq> ''__proto__''"
  shows "head_tracked st' h"
proof -
  from createCommit_Inr[OF assms(1)] obtain repo where
    r: "bookmark_git_repo st = Some repo" and h: "h = hash (new_commit sf st clk d m)"
    and st': "st' = st\<lparr>bookmark_git_repo := Some (repo\<lparr>head := Some h,
                   branches := object_set (branches repo) (getCurrentBranch st) (Some h)\<rparr>),
                bookmark_commits := Some ((commit_table st)(h \<mapsto> new_commit sf st clk d m))\<rparr>"
    by blast
  have "getCurrentBranch st' = getCurrentBranch st"
    by (simp add: st' getCurrentBranch_def)
  then show ?thesis
    using assms(2) by (simp add: head_tracked_def st' commit_table_def h object_get_set)
qed

lemma createCommit_parent:
  assumes "createCommit sf st clk d m a = Inr (h, st')"
  shows "\<exists>repo cm. bookmark_git_repo st = Some repo \<and> commit_table st' h = Some cm
           \<and> parent cm = head repo"
proof -
  from createCommit_Inr[OF assms] obtain repo where
    r: "bookmark_git_repo st = Some repo"
    and st': "st' = st\<lparr>bookmark_git_repo := Some (repo\<lparr>head := Some h,
                   branches := object_set (branches repo) (getCurrentBranch st) (Some h)\<rparr>),
                bookmark_commits := Some ((commit_table st)(h \<mapsto> new_commit sf st clk d m))\<rparr>"
    by blast
  have "commit_table st' h = Some (new_commit sf st clk d m)"
    by (simp add: st' commit_table_def)
  with r new_commit_parent[OF r] show ?thesis by blast
qed

lemma createCommit_branch_kept:
  assumes "createCommit sf st clk d m a = Inr (h, st')"
  shows "getCurrentBranch st' = getCurrentBranch st" "repo_head st' = Some h"
  using createCommit_Inr[OF assms] by (auto simp: getCurrentBranch_def repo_head_def)

lemma createCommits_last:
  "createCommits sf st calls = Inr (hs, st') \<Longrightarrow> calls \<noteq> [] \<Longrightarrow>
   getCurrentBranch st \<noteq> ''__proto__'' \<Longrightarrow>
     length hs = length calls \<and> head_tracked st' (last hs)"
proof (induction calls arbitrary: st hs)
  case Nil
  then show ?case by simp
next
  case (Cons c calls)
  obtain clk d m a where c: "c = (clk, d, m, a)" by (cases c) auto
  from Cons.prems(1) c obtain h st1 hs1 where
    1: "createCommit sf st clk d m a = Inr (h, st1)" and
    2: "createCommits sf st1 calls = Inr (hs1, st')" and hs: "hs = h # hs1"
    by (auto split: sum.splits)
  have b: "getCurrentBranch st1 \<noteq> ''__proto__''"
    using createCommit_branch_kept(1)[OF 1] Cons.prems(3) by simp
  show ?case
  proof (cases "calls = []")
    case True
    with 1 2 hs show ?thesis using createCommit_head_tracked[OF 1 Cons.prems(3)] by simp
  next
    case False
    from Cons.IH[OF 2 False b] have "length hs1 = length calls" "head_tracked st' (last hs1)"
      by auto
    moreover from this False have "hs1 \<noteq> []" by auto
    ultimately show ?thesis using hs by simp
  qed
qed

lemma calculateStats_empty: "calculateStats (JArr []) = Inr \<lparr>totalBookmarks = 0, totalFolders = 0, totalItems = 0\<rparr>"
  by (simp add: calculateStats_def)

lemma st_fresh_repo: "bookmark_git_repo st_fresh = Some \<lparr>initialized = True, created = 1000, head = None,
                     branches = [''main'' \<mapsto> None]\<rparr>"
  by (simp add: st_fresh_def ensureRepository_def empty_store_def)

lemma st_fresh_branch: "getCurrentBranch st_fresh = ''main''"
  by (simp add: st_fresh_def ensureRepository_def empty_store_def getCurrentBranch_def
        or_default_def)

lemma st_committed_eq:
  "createCommit stringify_sample st_fresh (clk_at 2000) (JArr []) ''m'' ''user'' = Inr (h_sample, st_committed)"
  by (simp add: createCommit_eq[OF st_fresh_repo calculateStats_empty] st_committed_def h_sample_def)

lemma st_committed_head: "repo_head st_committed = Some h_sample"
  by (rule createCommit_branch_kept(2)[OF st_committed_eq])

lemma st_committed_repo: "bookmark_git_repo st_committed \<noteq> None"
  using st_committed_head by (auto simp: repo_head_def split: option.splits)

lemma st_proto_eq:
  "st_proto = st_fresh\<lparr>current_branch := Some ''__proto__''\<rparr>"
  by (simp add: st_proto_def handleFileImport_def validateBackupData_def bundle_proto_def
        importRepository_def resetRepository_def initialize_def ensureRepository_def
        tracker_of_def st_fresh_def empty_store_def Let_def set_slot_def or_default_def)

lemma st_proto_committed_eq:
  "createCommit stringify_sample st_proto (clk_at 4000) (JArr []) ''m'' ''user''
     = Inr (h_proto, st_proto_committed)"
proof -
  have r: "bookmark_git_repo st_proto = Some \<lparr>initialized = True, created = 1000, head = None,
                     branches = [''main'' \<mapsto> None]\<rparr>"
    by (simp add: st_proto_eq st_fresh_repo)
  show ?thesis
    by (simp add: createCommit_eq[OF r calculateStats_empty] st_proto_committed_def h_proto_def)
qed

text \<open>
  Claim C4 fails on the code where the name of the current branch is \<open>__proto__\<close>. The
  options page imports a backup file with that branch name, which \<open>validateBackupData\<close>
  accepts, and the name is stored. A \<open>createCommit\<close> call on that storage succeeds, the
  head is the new commit's hash and the commit is in the commit table, but the
  assignment \<open>repo.branches[currentBranch] = commitHash\<close> has stored nothing: the branch
  table is as it was, the read \<open>branches[currentBranch]\<close> yields the object inherited
  under that name and not the head, so the branch pointer does not track the head.
\<close>

theorem createCommit_proto_branch_untracked:
  "validateBackupData bundle_proto
   \<and> fst (handleFileImport bundle_proto True (tracker_of st_fresh) 3000)
       = Some ''Repository imported successfully''
   \<and> current_branch st_proto = Some ''__proto__''
   \<and> repo_branches st_proto = [''main'' \<mapsto> None]
   \<and> createCommit stringify_sample st_proto (clk_at 4000) (JArr []) ''m'' ''user''
       = Inr (h_proto, st_proto_committed)
   \<and> repo_head st_proto_committed = Some h_proto
   \<and> commit_table st_proto_committed h_proto \<noteq> None
   \<and> getCurrentBranch st_proto_committed = ''__proto__''
   \<and> repo_branches st_proto_committed = [''main'' \<mapsto> None]
   \<and> object_get (repo_branches st_proto_committed) ''__proto__'' = Inherited
   \<and> \<not> head_tracked st_proto_committed h_proto"
proof -
  have 1: "validateBackupData bundle_proto"
    by (simp add: validateBackupData_def bundle_proto_def st_fresh_repo)
  have 2: "fst (handleFileImport bundle_proto True (tracker_of st_fresh) 3000)
       = Some ''Repository imported successfully''"
    by (simp add: handleFileImport_def 1 importRepository_def Let_def split: prod.splits)
  have 3: "current_branch st_proto = Some ''__proto__''" by (simp add: st_proto_eq)
  have b0: "getCurrentBranch st_proto = ''__proto__''"
    by (simp add: getCurrentBranch_def 3 or_default_def)
  have 4: "repo_branches st_proto = [''main'' \<mapsto> None]"
    by (simp add: repo_branches_def st_proto_eq st_fresh_repo)
  note 5 = st_proto_committed_eq
  from createCommit_Inr[OF 5] obtain repo where
    r: "bookmark_git_repo st_proto = Some repo"
    and st': "st_proto_committed = st_proto\<lparr>bookmark_git_repo := Some (repo\<lparr>head := Some h_proto,
                   branches := object_set (branches repo) (getCurrentBranch st_proto) (Some h_proto)\<rparr>),
                bookmark_commits := Some ((commit_table st_proto)(h_proto \<mapsto>
                   new_commit stringify_sample st_proto (clk_at 4000) (JArr []) ''m''))\<rparr>"
    by blast
  from r 4 have br: "branches repo = [''main'' \<mapsto> None]" by (simp add: repo_branches_def)
  have 6: "repo_head st_proto_committed = Some h_proto"
    by (rule createCommit_branch_kept(2)[OF 5])
  have 7: "commit_table st_proto_committed h_proto \<noteq> None"
    using createCommit_parent[OF 5] by auto
  have 8: "getCurrentBranch st_proto_committed = ''__proto__''"
    using createCommit_branch_kept(1)[OF 5] b0 by simp
  have 9: "repo_branches st_proto_committed = [''main'' \<mapsto> None]"
    by (simp add: repo_branches_def st' b0 br object_set_def)
  have 10: "object_get (repo_branches st_proto_committed) ''__proto__'' = Inherited"
    by (simp add: 9 object_get_def object_prototype_names_def)
  have 11: "\<not> head_tracked st_proto_committed h_proto"
    using 10 by (simp add: head_tracked_def repo_branches_def 8 split: option.splits)
  from 1 2 3 4 5 6 7 8 9 10 11 show ?thesis by (intro conjI)
qed

section \<open>Initialization\<close>




section \<open>Change-history log\<close>

lemma sorted_wrt_take: "sorted_wrt P xs \<Longrightarrow> sorted_wrt P (take n xs)"
  by (induction xs arbitrary: n) (auto simp: take_Cons' dest: in_set_takeD)

text \<open>
  Claim C10. \<open>storeChangeHistory\<close> writes back the new entry followed by the previous
  entries, cut to the first 100: the log it leaves has at most 100 entries, starts with
  the new entry, and is ordered newest first if it was so before and the clock has not
  gone back.
\<close>

theorem storeChangeHistory_log_bounded:
  fixes st :: store and chs :: "change list" and now :: nat
  defines "h0 \<equiv> (case changeHistory st of None \<Rightarrow> [] | Some h \<Rightarrow> h)"
  defines "entry \<equiv> \<lparr>entry_timestamp = now, changes = chs,
                      commitMessage = generateCommitMessage chs\<rparr>"
  shows "\<exists>h. changeHistory (storeChangeHistory st chs now) = Some h
           \<and> h = take 100 (entry # h0)
           \<and> length h \<le> 100
           \<and> hd h = entry
           \<and> (newest_first h0 \<and> (\<forall>e \<in> set h0. entry_timestamp e \<le> now) \<longrightarrow> newest_first h)"
proof -
  let ?h = "take 100 (entry # h0)"
  have 1: "changeHistory (storeChangeHistory st chs now) = Some ?h"
    by (simp add: storeChangeHistory_def Let_def h0_def entry_def)
  have 2: "newest_first h0 \<Longrightarrow> (\<forall>e \<in> set h0. entry_timestamp e \<le> now) \<Longrightarrow> newest_first ?h"
    unfolding newest_first_def
    by (rule sorted_wrt_take) (simp add: entry_def)
  show ?thesis using 1 2 by simp
qed

theorem storeChangeHistory_log_bounded_witness:
  "newest_first [\<lparr>entry_timestamp = 5, changes = [], commitMessage = ''x''\<rparr>]
   \<and> entry_timestamp \<lparr>entry_timestamp = 5, changes = [], commitMessage = ''x''\<rparr> \<le> 10
   \<and> newest_first (the (changeHistory (storeChangeHistory
        (empty_store\<lparr>changeHistory :=
           Some [\<lparr>entry_timestamp = 5, changes = [], commitMessage = ''x''\<rparr>]\<rparr>) [] 10)))
   \<and> length (the (changeHistory (storeChangeHistory
        (empty_store\<lparr>changeHistory :=
           Some [\<lparr>entry_timestamp = 5, changes = [], commitMessage = ''x''\<rparr>]\<rparr>) [] 10))) = 2"
  using storeChangeHistory_log_bounded[of
      "empty_store\<lparr>changeHistory :=
         Some [\<lparr>entry_timestamp = 5, changes = [], commitMessage = ''x''\<rparr>]\<rparr>" "[]" 10]
  by (auto simp: newest_first_def)

section \<open>Import and export\<close>

lemma st_committed_table: "commit_table st_committed h_sample \<noteq> None"
  using createCommit_parent[OF st_committed_eq] by auto

lemma import_commit_table:
  "commit_table (storage (gitManager (snd (importRepository d tr now))))
     = (case commits d of None \<Rightarrow> Map.empty | Some c \<Rightarrow> c)"
  by (simp add: importRepository_def resetRepository_def initialize_def ensureRepository_def
        Let_def commit_table_def set_slot_def split: option.splits)

text \<open>
  Claim C1, as stated, fails: \<open>importRepository\<close> itself validates nothing. Given a backup
  without \<open>commits\<close>, or one without \<open>version\<close>, both of which \<open>validateBackupData\<close>
  refuses, it reports success, and the commit that the repository held is gone from the
  commit table.
\<close>

theorem importRepository_no_validation:
  "\<not> validateBackupData bundle_without_commits
   \<and> success (fst (importRepository bundle_without_commits (tracker_of st_committed) 3000))
   \<and> commit_table (storage (gitManager (tracker_of st_committed))) h_sample \<noteq> None
   \<and> commit_table (storage (gitManager
        (snd (importRepository bundle_without_commits (tracker_of st_committed) 3000))))
        h_sample = None
   \<and> \<not> validateBackupData bundle_without_version
   \<and> success (fst (importRepository bundle_without_version (tracker_of st_committed) 3000))
   \<and> commit_table (storage (gitManager
        (snd (importRepository bundle_without_version (tracker_of st_committed) 3000))))
        h_sample = None"
proof -
  have 1: "\<not> validateBackupData bundle_without_commits"
    by (simp add: validateBackupData_def bundle_without_commits_def)
  have 2: "success (fst (importRepository bundle_without_commits (tracker_of st_committed) 3000))"
    by (simp add: importRepository_def Let_def)
  have 3: "commit_table (storage (gitManager (tracker_of st_committed))) h_sample \<noteq> None"
    using st_committed_table by (simp add: tracker_of_def)
  have 4: "commit_table (storage (gitManager
        (snd (importRepository bundle_without_commits (tracker_of st_committed) 3000))))
        h_sample = None"
    by (simp add: import_commit_table bundle_without_commits_def)
  have 5: "\<not> validateBackupData bundle_without_version"
    by (simp add: validateBackupData_def bundle_without_version_def)
  have 6: "success (fst (importRepository bundle_without_version (tracker_of st_committed) 3000))"
    by (simp add: importRepository_def Let_def)
  have 7: "commit_table (storage (gitManager
        (snd (importRepository bundle_without_version (tracker_of st_committed) 3000))))
        h_sample = None"
    by (simp add: import_commit_table bundle_without_version_def)
  from 1 2 3 4 5 6 7 show ?thesis by (intro conjI)
qed

text \<open>
  Claim C1, amended. The validation is the options page's: a backup that
  \<open>validateBackupData\<close> refuses, in particular one without \<open>commits\<close>, is answered by
  \<open>handleFileImport\<close> with the toast \<open>Invalid backup file format\<close>, and the tracker and its
  storage stay as they were: \<open>importRepository\<close> is not called and nothing is reset.
\<close>

theorem import_flow_rejects_invalid:
  "(commits d = None \<longrightarrow> \<not> validateBackupData d)
   \<and> (\<not> validateBackupData d \<longrightarrow>
        handleFileImport d confirm tr now = (Some ''Invalid backup file format'', tr))"
  by (simp add: validateBackupData_def handleFileImport_def)

theorem import_flow_rejects_invalid_witness:
  "commits bundle_without_commits = None
   \<and> \<not> validateBackupData bundle_without_commits
   \<and> handleFileImport bundle_without_commits True (tracker_of st_committed) 3000
       = (Some ''Invalid backup file format'', tracker_of st_committed)"
  using import_flow_rejects_invalid[of bundle_without_commits True "tracker_of st_committed" 3000]
  by (simp add: bundle_without_commits_def)

section \<open>Uniqueness of commit hashes\<close>

lemma createCommit_hash:
  "createCommit sf st clk d m a = Inr (h, st') \<Longrightarrow>
     h = generateHash (toString_radix 10 (at_hash_input clk) @ m @ sf d) (at_hash_suffix clk)"
  by (drule createCommit_Inr) (auto simp: new_commit_def Let_def)

lemma createCommit_table:
  "createCommit sf st clk d m a = Inr (h, st') \<Longrightarrow>
     commit_table st' = (commit_table st)(h \<mapsto> new_commit sf st clk d m)"
  by (drule createCommit_Inr) (auto simp: commit_table_def)

lemma st_twice_eq:
  "createCommit stringify_sample st_committed (clk_at 2000) (JArr []) ''m'' ''user'' = Inr (h_sample, st_twice)"
proof -
  from st_committed_repo obtain r where r: "bookmark_git_repo st_committed = Some r" by auto
  show ?thesis
    by (simp add: createCommit_eq[OF r calculateStats_empty] st_twice_def h_sample_def new_commit_def Let_def)
qed

lemma st_later_eq:
  "createCommit stringify_sample st_committed (clk_at 2001) (JArr []) ''m'' ''user'' = Inr (h_later, st_later)"
proof -
  from st_committed_repo obtain r where r: "bookmark_git_repo st_committed = Some r" by auto
  show ?thesis
    by (simp add: createCommit_eq[OF r calculateStats_empty] st_later_def h_later_def)
qed

text \<open>
  Claim C5, as stated, fails: the time component is the millisecond reading of
  \<open>Date.now()\<close>, which need not have advanced. The same tree and message committed twice
  with the same clock readings get the same hash, and the second commit takes the place
  of the first: the commit table holds one commit after the two calls.
\<close>

theorem createCommit_same_millisecond_collides:
  "createCommit stringify_sample st_fresh (clk_at 2000) (JArr []) ''m'' ''user''
     = Inr (h_sample, st_committed)
   \<and> createCommit stringify_sample st_committed (clk_at 2000) (JArr []) ''m'' ''user''
     = Inr (h_sample, st_twice)
   \<and> totalCommits (getRepositoryStats st_twice) = 1"
proof -
  have t1: "commit_table st_committed = (commit_table st_fresh)(h_sample \<mapsto>
      new_commit stringify_sample st_fresh (clk_at 2000) (JArr []) ''m'')"
    by (rule createCommit_table[OF st_committed_eq])
  have t0: "commit_table st_fresh = Map.empty"
    by (simp add: commit_table_def st_fresh_def ensureRepository_def empty_store_def)
  have t2: "commit_table st_twice = (commit_table st_committed)(h_sample \<mapsto>
      new_commit stringify_sample st_committed (clk_at 2000) (JArr []) ''m'')"
    by (rule createCommit_table[OF st_twice_eq])
  have "dom (commit_table st_twice) = {h_sample}" by (simp add: t2 t1 t0)
  then have "totalCommits (getRepositoryStats st_twice) = 1"
    by (simp add: getRepositoryStats_def Let_def)
  with st_committed_eq st_twice_eq show ?thesis by simp
qed

text \<open>
  Claim C5, amended. Two successful \<open>createCommit\<close> calls whose readings of \<open>Date.now()\<close>
  in \<open>generateHash\<close> differ return different hashes, whatever the trees and messages;
  when the second call follows the first, the first commit is still in the commit table
  next to the second.
\<close>

theorem createCommit_hashes_differ:
  "(createCommit sf st clk d m a = Inr (h, st')
      \<and> createCommit sf' st2 clk' d' m' a' = Inr (h', st2')
      \<and> at_hash_suffix clk \<noteq> at_hash_suffix clk' \<longrightarrow> h \<noteq> h')
   \<and> (createCommit sf st clk d m a = Inr (h, st')
      \<and> createCommit sf' st' clk' d' m' a' = Inr (h', st'')
      \<and> at_hash_suffix clk \<noteq> at_hash_suffix clk' \<longrightarrow>
        commit_table st'' h = commit_table st' h \<and> commit_table st'' h \<noteq> None
        \<and> commit_table st'' h' \<noteq> None)"
proof (intro conjI impI)
  assume a: "createCommit sf st clk d m a = Inr (h, st')
      \<and> createCommit sf' st2 clk' d' m' a' = Inr (h', st2')
      \<and> at_hash_suffix clk \<noteq> at_hash_suffix clk'"
  then show "h \<noteq> h'"
    using createCommit_hash[of sf st clk d m a h st'] createCommit_hash[of sf' st2 clk' d' m' a' h' st2']
      generateHash_time_inj by blast
next
  assume a: "createCommit sf st clk d m a = Inr (h, st')
      \<and> createCommit sf' st' clk' d' m' a' = Inr (h', st'')
      \<and> at_hash_suffix clk \<noteq> at_hash_suffix clk'"
  then have ne: "h \<noteq> h'"
    using createCommit_hash[of sf st clk d m a h st'] createCommit_hash[of sf' st' clk' d' m' a' h' st'']
      generateHash_time_inj by blast
  from a have p1: "createCommit sf st clk d m a = Inr (h, st')"
    and p2: "createCommit sf' st' clk' d' m' a' = Inr (h', st'')" by auto
  note 1 = createCommit_table[OF p1] and 2 = createCommit_table[OF p2]
  show "commit_table st'' h = commit_table st' h" using ne by (simp add: 2)
  show "commit_table st'' h \<noteq> None" using ne by (simp add: 2 1)
  show "commit_table st'' h' \<noteq> None" by (simp add: 2)
qed

theorem createCommit_hashes_differ_witness:
  "createCommit stringify_sample st_fresh (clk_at 2000) (JArr []) ''m'' ''user''
     = Inr (h_sample, st_committed)
   \<and> createCommit stringify_sample st_committed (clk_at 2001) (JArr []) ''m'' ''user''
     = Inr (h_later, st_later)
   \<and> at_hash_suffix (clk_at 2000) \<noteq> at_hash_suffix (clk_at 2001)
   \<and> h_sample \<noteq> h_later
   \<and> commit_table st_later h_sample \<noteq> None
   \<and> commit_table st_later h_later \<noteq> None"
  using createCommit_hashes_differ[of stringify_sample st_fresh "clk_at 2000" "JArr []" "''m''" "''user''"
      h_sample st_committed stringify_sample st_committed "clk_at 2001" "JArr []" "''m''" "''user''"
      h_later st_later st_later]
    st_committed_eq st_later_eq st_committed_table
  by (simp add: clk_at_def)

section \<open>History walk\<close>

lemma object_get_cases:
  "object_get c h = Own cm \<longleftrightarrow> c h = Some cm"
  "object_get c h = Absent \<Longrightarrow> c h = None"
  "object_get c h = Inherited \<Longrightarrow> c h = None"
  by (auto simp: object_get_def split: option.splits if_splits)

lemma history_loop_finite:
  "history_loop c cur count (enat n) acc =
     Some (case throws c cur (n - count) of
             Some e \<Rightarrow> Inl e
           | None \<Rightarrow> Inr (acc @ map summarize (chain c cur (n - count))))"
proof (induction "n - count" arbitrary: cur count acc)
  case 0
  then have "\<not> count < n" by simp
  then show ?case using 0
    by (subst history_loop.simps) (simp split: option.splits)
next
  case (Suc k)
  then have lt: "count < n" and k: "k = n - Suc count" and s: "n - count = Suc k" by simp_all
  show ?case
  proof (cases cur)
    case None
    then show ?thesis by (subst history_loop.simps) (simp add: s)
  next
    case (Some h)
    show ?thesis
    proof (cases "h = []")
      case True
      with Some show ?thesis by (subst history_loop.simps) (simp add: s)
    next
      case False
      show ?thesis
      proof (cases "object_get c h")
        case Absent
        with Some False lt object_get_cases(2)[OF Absent] show ?thesis
          by (subst history_loop.simps) (simp add: s)
      next
        case Inherited
        with Some False lt show ?thesis
          by (subst history_loop.simps) (simp add: s)
      next
        case (Own cm)
        then have ch: "c h = Some cm" by (simp add: object_get_cases(1))
        show ?thesis
        proof (cases "date_representable (timestamp (committer cm))")
          case True
          with Own ch \<open>cur = Some h\<close> False lt show ?thesis
            by (subst history_loop.simps)
               (simp add: s Suc.hyps(1)[OF k] k[symmetric] split: option.splits)
        next
          case no: False
          with Own \<open>cur = Some h\<close> False lt show ?thesis
            by (subst history_loop.simps) (simp add: s)
        qed
      qed
    qed
  qed
qed

lemma history_loop_unbounded:
  "throws c cur n \<noteq> None \<or> length (chain c cur n) < n \<Longrightarrow>
     history_loop c cur count \<infinity> acc =
       Some (case throws c cur n of
               Some e \<Rightarrow> Inl e
             | None \<Rightarrow> Inr (acc @ map summarize (chain c cur n)))"
proof (induction n arbitrary: cur count acc)
  case 0
  then show ?case by simp
next
  case (Suc n)
  show ?case
  proof (cases cur)
    case None
    then show ?thesis by (subst history_loop.simps) simp
  next
    case (Some h)
    show ?thesis
    proof (cases "h = []")
      case True
      with Some show ?thesis by (subst history_loop.simps) simp
    next
      case False
      show ?thesis
      proof (cases "object_get c h")
        case Absent
        with Some False object_get_cases(2)[OF Absent] show ?thesis
          by (subst history_loop.simps) simp
      next
        case Inherited
        with Some False show ?thesis
          by (subst history_loop.simps) simp
      next
        case (Own cm)
        then have ch: "c h = Some cm" by (simp add: object_get_cases(1))
        show ?thesis
        proof (cases "date_representable (timestamp (committer cm))")
          case True
          from Suc.prems Some False Own ch True
          have p: "throws c (parent cm) n \<noteq> None \<or> length (chain c (parent cm) n) < n"
            by simp
          from Own ch Some False True show ?thesis
            by (subst history_loop.simps)
               (simp add: Suc.IH[OF p] split: option.splits)
        next
          case no: False
          with Own Some False show ?thesis
            by (subst history_loop.simps) simp
        qed
      qed
    qed
  qed
qed

lemma history_loop_cycle:
  assumes "c h = Some cm" "parent cm = Some h" "h \<noteq> []"
    and "date_representable (timestamp (committer cm))"
  shows "history_loop c (Some h) count \<infinity> acc = None"
proof -
  have "False" if s: "history_loop c (Some h) count \<infinity> acc = Some y" for y
  proof -
    have "c = c \<longrightarrow> Some h = Some h \<longrightarrow> (\<infinity> :: enat) = \<infinity> \<longrightarrow> False"
    proof (rule history_loop.raw_induct[where P = "\<lambda>c' cur count' limit acc' y.
               c' = c \<longrightarrow> cur = Some h \<longrightarrow> limit = \<infinity> \<longrightarrow> False", OF _ s], goal_cases)
      case (1 loop c' cur count' limit acc' y)
      show ?case
      proof (intro impI)
        assume a: "c' = c" "cur = Some h" "limit = \<infinity>"
        with 1(2) assms
        have "loop c (Some h) (Suc count') \<infinity> (acc' @ [summarize cm]) = Some y"
          by (simp add: object_get_def)
        from 1(1)[OF this] show False by simp
      qed
    qed
    then show False by simp
  qed
  then show ?thesis by (cases "history_loop c (Some h) count \<infinity> acc") auto
qed

lemma chain_no_start: "chain c None n = []" "chain c (Some []) n = []"
  by (cases n; simp)+

lemma throws_no_start: "throws c None n = None" "throws c (Some []) n = None"
  by (cases n; simp)+

lemma getCommitHistory_finite:
  "getCommitHistory st (enat n) =
     Some (case throws (commit_table st) (repo_head st) n of
             Some e \<Rightarrow> []
           | None \<Rightarrow> map summarize (chain (commit_table st) (repo_head st) n))"
proof -
  have hl: "\<And>cur. history_loop (commit_table st) cur 0 (enat n) []
      = Some (case throws (commit_table st) cur n of
                Some e \<Rightarrow> Inl e
              | None \<Rightarrow> Inr (map summarize (chain (commit_table st) cur n)))"
    using history_loop_finite[of "commit_table st" _ 0 n "[]"] by (simp split: option.splits)
  show ?thesis
    by (simp add: getCommitHistory_def repo_head_def hl chain_no_start throws_no_start
          split: option.splits)
qed

lemma getCommitHistory_unbounded:
  assumes "throws (commit_table st) (repo_head st) n \<noteq> None
           \<or> length (chain (commit_table st) (repo_head st) n) < n"
  shows "getCommitHistory st \<infinity> = getCommitHistory st (enat n)"
proof -
  have hl: "\<And>cur. throws (commit_table st) cur n \<noteq> None
                \<or> length (chain (commit_table st) cur n) < n \<Longrightarrow>
      history_loop (commit_table st) cur 0 \<infinity> []
      = Some (case throws (commit_table st) cur n of
                Some e \<Rightarrow> Inl e
              | None \<Rightarrow> Inr (map summarize (chain (commit_table st) cur n)))"
    using history_loop_unbounded[of "commit_table st" _ n 0 "[]"]
    by (simp split: option.splits)
  show ?thesis
  proof (cases "bookmark_git_repo st")
    case None
    then show ?thesis by (simp add: getCommitHistory_def)
  next
    case (Some repo)
    show ?thesis
    proof (cases "head repo")
      case None
      with Some show ?thesis by (simp add: getCommitHistory_def)
    next
      case h: (Some h)
      show ?thesis
      proof (cases "h = []")
        case True
        with Some h show ?thesis by (simp add: getCommitHistory_def)
      next
        case False
        from Some h have rh: "repo_head st = Some h" by (simp add: repo_head_def)
        from assms have a: "throws (commit_table st) (Some h) n \<noteq> None
                \<or> length (chain (commit_table st) (Some h) n) < n"
          by (simp add: rh)
        show ?thesis
          unfolding getCommitHistory_finite rh
          using Some h False by (simp add: getCommitHistory_def hl[OF a] split: option.splits)
      qed
    qed
  qed
qed

lemma getCommitHistory_ended:
  assumes "getCommitHistory st (enat n) = Some hs" "length hs < n"
  shows "getCommitHistory st \<infinity> = Some hs"
proof -
  have "throws (commit_table st) (repo_head st) n \<noteq> None
           \<or> length (chain (commit_table st) (repo_head st) n) < n"
    using assms unfolding getCommitHistory_finite by (auto split: option.splits)
  from getCommitHistory_unbounded[OF this] assms(1) show ?thesis by simp
qed



lemma chain_stable:
  "length (chain c cur n) < n \<Longrightarrow> n \<le> m \<Longrightarrow> chain c cur m = chain c cur n"
proof (induction n arbitrary: cur m)
  case 0
  then show ?case by simp
next
  case (Suc n)
  then obtain m' where m: "m = Suc m'" and le: "n \<le> m'" by (cases m) auto
  show ?case using Suc.prems(1) Suc.IH[OF _ le] by (auto simp: m split: option.splits)
qed

lemma throws_stable:
  "throws c cur n = None \<Longrightarrow> length (chain c cur n) < n \<Longrightarrow> n \<le> m \<Longrightarrow>
     throws c cur m = None"
proof (induction n arbitrary: cur m)
  case 0
  then show ?case by simp
next
  case (Suc n)
  then obtain m' where m: "m = Suc m'" and le: "n \<le> m'" by (cases m) auto
  show ?case
  proof (cases cur)
    case None
    then show ?thesis by (simp add: throws_no_start)
  next
    case (Some h)
    show ?thesis
    proof (cases "h = []")
      case True
      with Some show ?thesis by (simp add: throws_no_start)
    next
      case False
      show ?thesis
      proof (cases "object_get c h")
        case Absent
        with Some False show ?thesis by (simp add: m)
      next
        case Inherited
        with Some False Suc.prems(1) show ?thesis by simp
      next
        case (Own cm)
        then have ch: "c h = Some cm" by (simp add: object_get_cases(1))
        from Suc.prems(1,2) Some False Own ch
        have d: "date_representable (timestamp (committer cm))"
          and t: "throws c (parent cm) n = None" and l: "length (chain c (parent cm) n) < n"
          by (auto split: if_splits)
        from Suc.IH[OF t l le] Some False Own d show ?thesis by (simp add: m)
      qed
    qed
  qed
qed









lemma generateHash_nonempty: "generateHash s t \<noteq> []"
  by (simp add: generateHash_def)

lemma new_commit_hash_nonempty: "hash (new_commit sf st clk d m) \<noteq> []"
  by (simp add: new_commit_def Let_def generateHash_nonempty)

lemma new_commit_timestamp:
  "timestamp (committer (new_commit sf st clk d m)) = at_committer clk"
  by (simp add: new_commit_def Let_def)

lemma st_twice_cycle:
  "commit_table st_twice h_sample
     = Some (new_commit stringify_sample st_committed (clk_at 2000) (JArr []) ''m'')"
  "parent (new_commit stringify_sample st_committed (clk_at 2000) (JArr []) ''m'') = Some h_sample"
  "repo_head st_twice = Some h_sample"
proof -
  show "commit_table st_twice h_sample
     = Some (new_commit stringify_sample st_committed (clk_at 2000) (JArr []) ''m'')"
    by (simp add: createCommit_table[OF st_twice_eq])
  from st_committed_head obtain r where r: "bookmark_git_repo st_committed = Some r"
    "head r = Some h_sample"
    by (auto simp: repo_head_def split: option.splits)
  show "parent (new_commit stringify_sample st_committed (clk_at 2000) (JArr []) ''m'') = Some h_sample"
    by (simp add: new_commit_parent[OF r(1)] r(2))
  show "repo_head st_twice = Some h_sample"
    by (rule createCommit_branch_kept(2)[OF st_twice_eq])
qed

lemma st_twice_unbounded: "getCommitHistory st_twice \<infinity> = None"
proof -
  have n: "h_sample \<noteq> []" by (simp add: h_sample_def new_commit_hash_nonempty)
  have d: "date_representable (timestamp (committer
      (new_commit stringify_sample st_committed (clk_at 2000) (JArr []) ''m'')))"
    by (simp add: new_commit_timestamp clk_at_def date_representable_def)
  note l = history_loop_cycle[where c = "commit_table st_twice" and h = h_sample
      and cm = "new_commit stringify_sample st_committed (clk_at 2000) (JArr []) ''m''"
      and count = 0 and acc = "[]", OF st_twice_cycle(1) st_twice_cycle(2) n d]
  from st_twice_cycle(3) obtain r where r: "bookmark_git_repo st_twice = Some r"
    "head r = Some h_sample"
    by (auto simp: repo_head_def split: option.splits)
  show ?thesis by (simp add: getCommitHistory_def r n l)
qed



lemma h_sample_ne_h_later: "h_sample \<noteq> h_later"
proof -
  have "at_hash_suffix (clk_at 2000) \<noteq> at_hash_suffix (clk_at 2001)" by (simp add: clk_at_def)
  with createCommit_hash[OF st_committed_eq] createCommit_hash[OF st_later_eq]
    generateHash_time_inj show ?thesis by metis
qed

lemma st_later_walk:
  "chain (commit_table st_later) (repo_head st_later) 50
     = [new_commit stringify_sample st_committed (clk_at 2001) (JArr []) ''m'',
        new_commit stringify_sample st_fresh (clk_at 2000) (JArr []) ''m'']"
  "throws (commit_table st_later) (repo_head st_later) 50 = None"
proof -
  let ?c1 = "new_commit stringify_sample st_fresh (clk_at 2000) (JArr []) ''m''"
  let ?c2 = "new_commit stringify_sample st_committed (clk_at 2001) (JArr []) ''m''"
  have t0: "commit_table st_fresh = Map.empty"
    by (simp add: commit_table_def st_fresh_def ensureRepository_def empty_store_def)
  have t2: "commit_table st_later = [h_sample \<mapsto> ?c1, h_later \<mapsto> ?c2]"
    by (simp add: createCommit_table[OF st_later_eq] createCommit_table[OF st_committed_eq] t0)
  have hd: "repo_head st_later = Some h_later"
    by (rule createCommit_branch_kept(2)[OF st_later_eq])
  have p1: "parent ?c1 = None"
    by (simp add: new_commit_parent[OF st_fresh_repo])
  from st_committed_head obtain r where r: "bookmark_git_repo st_committed = Some r"
    "head r = Some h_sample"
    by (auto simp: repo_head_def split: option.splits)
  have p2: "parent ?c2 = Some h_sample"
    by (simp add: new_commit_parent[OF r(1)] r(2))
  have n1: "h_sample \<noteq> []" "h_later \<noteq> []"
    by (simp_all add: h_sample_def h_later_def new_commit_hash_nonempty)
  have c3: "chain (commit_table st_later) (repo_head st_later) 3 = [?c2, ?c1]"
    using n1 h_sample_ne_h_later by (simp add: numeral_3_eq_3 t2 hd p1 p2)
  have ts: "date_representable (timestamp (committer ?c1))"
    "date_representable (timestamp (committer ?c2))"
    by (simp_all add: new_commit_timestamp clk_at_def date_representable_def)
  have t3: "throws (commit_table st_later) (repo_head st_later) 3 = None"
    using n1 h_sample_ne_h_later
    by (simp add: numeral_3_eq_3 t2 hd p1 p2 object_get_def ts)
  show "chain (commit_table st_later) (repo_head st_later) 50 = [?c2, ?c1]"
    using chain_stable[of "commit_table st_later" "repo_head st_later" 3 50] c3 by simp
  show "throws (commit_table st_later) (repo_head st_later) 50 = None"
    using throws_stable[of "commit_table st_later" "repo_head st_later" 3 50] c3 t3 by simp
qed


section \<open>Export and import round trip\<close>

lemma reachable_slots:
  "reachable st \<Longrightarrow> bookmark_git_repo st \<noteq> None \<and> bookmark_commits st \<noteq> None"
proof (induction rule: reachable.induct)
  case (first_run st now)
  then show ?case by (simp add: ensureRepository_def)
next
  case (restart st now)
  then show ?case by (auto simp: ensureRepository_def)
next
  case (commit st sf clk d m a h st')
  from createCommit_Inr[OF commit.hyps(2)] show ?case by auto
next
  case (reset gm now)
  then show ?case
    by (simp add: resetRepository_def initialize_def ensureRepository_def Let_def)
next
  case (import tr d now)
  then show ?case
    by (simp add: importRepository_def resetRepository_def initialize_def ensureRepository_def
          Let_def set_slot_def split: option.splits)
next
  case (history st chs now)
  then show ?case by (simp add: storeChangeHistory_def Let_def)
next
  case (settings st cfg)
  then show ?case by simp
qed

lemma or_default_idem: "or_default (Some (or_default x d)) d = or_default x d"
  by (simp add: or_default_def split: option.splits)

lemma import_export_storage:
  assumes "bookmark_git_repo (storage (gitManager tr)) = Some r"
    and "bookmark_commits (storage (gitManager tr)) = Some c"
  shows "storage (gitManager (snd (importRepository
           (exportRepository (storage (gitManager tr)) xdate) tr now)))
         = (storage (gitManager tr))\<lparr>
             current_branch := Some (getCurrentBranch (storage (gitManager tr))),
             git_config := Some (case git_config (storage (gitManager tr)) of
                                   None \<Rightarrow> \<lparr>user = None\<rparr> | Some g \<Rightarrow> g)\<rparr>"
  using assms
  by (simp add: importRepository_def resetRepository_def initialize_def ensureRepository_def
        exportRepository_def Let_def set_slot_def getCurrentBranch_def)

lemma commit_table_slots:
  "bookmark_commits st' = bookmark_commits st \<Longrightarrow> commit_table st' = commit_table st"
  by (simp add: commit_table_def)

lemma getCommitHistory_slots:
  assumes "bookmark_git_repo st' = bookmark_git_repo st"
    and "bookmark_commits st' = bookmark_commits st"
  shows "getCommitHistory st' limit = getCommitHistory st limit"
  unfolding getCommitHistory_def commit_table_slots[OF assms(2)] assms(1) by (rule refl)

lemma getRepositoryStats_slots:
  assumes "bookmark_git_repo st' = bookmark_git_repo st"
    and "bookmark_commits st' = bookmark_commits st"
    and "getCurrentBranch st' = getCurrentBranch st"
  shows "getRepositoryStats st' = getRepositoryStats st"
  unfolding getRepositoryStats_def commit_table_slots[OF assms(2)] assms(1) assms(3)
  by (rule refl)

lemma round_trip_slots:
  assumes "reachable (storage (gitManager tr))"
  shows "bookmark_git_repo (storage (gitManager (snd (importRepository
             (exportRepository (storage (gitManager tr)) xdate) tr now))))
           = bookmark_git_repo (storage (gitManager tr))"
    and "bookmark_commits (storage (gitManager (snd (importRepository
             (exportRepository (storage (gitManager tr)) xdate) tr now))))
           = bookmark_commits (storage (gitManager tr))"
    and "getCurrentBranch (storage (gitManager (snd (importRepository
             (exportRepository (storage (gitManager tr)) xdate) tr now))))
           = getCurrentBranch (storage (gitManager tr))"
proof -
  from reachable_slots[OF assms] obtain r c where
    r: "bookmark_git_repo (storage (gitManager tr)) = Some r" and
    c: "bookmark_commits (storage (gitManager tr)) = Some c" by auto
  let ?st' = "storage (gitManager (snd (importRepository
             (exportRepository (storage (gitManager tr)) xdate) tr now)))"
  show "bookmark_git_repo ?st' = bookmark_git_repo (storage (gitManager tr))"
    by (simp add: import_export_storage[OF r c])
  show "bookmark_commits ?st' = bookmark_commits (storage (gitManager tr))"
    by (simp add: import_export_storage[OF r c])
  show "getCurrentBranch ?st' = getCurrentBranch (storage (gitManager tr))"
    by (simp add: import_export_storage[OF r c] getCurrentBranch_def or_default_idem)
qed

lemma reachable_st_committed: "reachable st_committed"
proof -
  have "bookmark_git_repo empty_store = None" by (simp add: empty_store_def)
  then have "reachable st_fresh" unfolding st_fresh_def by (rule reachable.first_run)
  then show ?thesis using st_committed_eq by (rule reachable.commit)
qed

lemma reachable_st_twice: "reachable st_twice"
  using reachable_st_committed st_twice_eq by (rule reachable.commit)

lemma reachable_st_later: "reachable st_later"
  using reachable_st_committed st_later_eq by (rule reachable.commit)

text \<open>
  Claim C9, as stated, fails: two commits of the same tree and message in the same
  millisecond leave a reachable repository whose head commit is its own parent. There the
  walk with the unbounded limit never ends: \<open>getCommitHistory\<close> returns no sequence,
  before the export and after the import.
\<close>

theorem round_trip_unbounded_walk_without_end:
  "reachable (storage (gitManager (tracker_of st_twice)))
   \<and> getCommitHistory (storage (gitManager (tracker_of st_twice))) \<infinity> = None
   \<and> getCommitHistory (storage (gitManager (snd (importRepository
         (exportRepository (storage (gitManager (tracker_of st_twice))) ''2025-01-01'')
         (tracker_of st_twice) 3000)))) \<infinity> = None"
proof -
  have r: "reachable (storage (gitManager (tracker_of st_twice)))"
    using reachable_st_twice by (simp add: tracker_of_def)
  have 1: "getCommitHistory (storage (gitManager (tracker_of st_twice))) \<infinity> = None"
    using st_twice_unbounded by (simp add: tracker_of_def)
  have 2: "getCommitHistory (storage (gitManager (snd (importRepository
         (exportRepository (storage (gitManager (tracker_of st_twice))) ''2025-01-01'')
         (tracker_of st_twice) 3000)))) \<infinity>
      = getCommitHistory (storage (gitManager (tracker_of st_twice))) \<infinity>"
    by (rule getCommitHistory_slots[OF round_trip_slots(1,2)[OF r]])
  from r 1 2 show ?thesis by simp
qed

text \<open>
  Claim C9, amended. On every reachable storage, importing what \<open>exportRepository\<close>
  returns leaves \<open>getRepositoryStats\<close> with the result it had before; for every finite
  limit \<open>getCommitHistory\<close> returns, before and after, the same sequence; whenever a
  finite limit is not used up, the walk with the unbounded limit returns that same
  sequence, before and after; and where the unbounded walk does not end before, it does
  not end after.
\<close>

theorem export_import_round_trip:
  assumes "reachable (storage (gitManager tr))"
  shows "getRepositoryStats (storage (gitManager (snd (importRepository
             (exportRepository (storage (gitManager tr)) xdate) tr now))))
           = getRepositoryStats (storage (gitManager tr))
         \<and> (\<exists>hs. getCommitHistory (storage (gitManager tr)) (enat n) = Some hs
              \<and> getCommitHistory (storage (gitManager (snd (importRepository
                   (exportRepository (storage (gitManager tr)) xdate) tr now)))) (enat n)
                 = Some hs
              \<and> (length hs < n \<longrightarrow>
                   getCommitHistory (storage (gitManager tr)) \<infinity> = Some hs
                   \<and> getCommitHistory (storage (gitManager (snd (importRepository
                        (exportRepository (storage (gitManager tr)) xdate) tr now)))) \<infinity>
                      = Some hs))
         \<and> getCommitHistory (storage (gitManager (snd (importRepository
             (exportRepository (storage (gitManager tr)) xdate) tr now)))) \<infinity>
           = getCommitHistory (storage (gitManager tr)) \<infinity>"
proof -
  let ?st = "storage (gitManager tr)"
  let ?st' = "storage (gitManager (snd (importRepository
             (exportRepository (storage (gitManager tr)) xdate) tr now)))"
  note s = round_trip_slots[OF assms, of xdate now]
  have h: "\<And>limit. getCommitHistory ?st' limit = getCommitHistory ?st limit"
    by (rule getCommitHistory_slots[OF s(1,2)])
  have 1: "getRepositoryStats ?st' = getRepositoryStats ?st"
    by (rule getRepositoryStats_slots[OF s])
  obtain hs where hs: "getCommitHistory ?st (enat n) = Some hs"
    by (simp add: getCommitHistory_finite)
  have 2: "length hs < n \<longrightarrow> getCommitHistory ?st \<infinity> = Some hs
             \<and> getCommitHistory ?st' \<infinity> = Some hs"
    using getCommitHistory_ended[OF hs] by (simp add: h)
  from hs 2 have "\<exists>hs. getCommitHistory ?st (enat n) = Some hs
              \<and> getCommitHistory ?st' (enat n) = Some hs
              \<and> (length hs < n \<longrightarrow>
                   getCommitHistory ?st \<infinity> = Some hs \<and> getCommitHistory ?st' \<infinity> = Some hs)"
    by (simp add: h)
  with 1 h show ?thesis by (intro conjI)
qed

theorem export_import_round_trip_witness:
  "reachable (storage (gitManager (tracker_of st_later)))
   \<and> getRepositoryStats (storage (gitManager (snd (importRepository
         (exportRepository (storage (gitManager (tracker_of st_later))) ''2025-01-01'')
         (tracker_of st_later) 3000))))
       = getRepositoryStats (storage (gitManager (tracker_of st_later)))
   \<and> getCommitHistory (storage (gitManager (tracker_of st_later))) (enat 50)
       = Some [summarize (new_commit stringify_sample st_committed (clk_at 2001) (JArr []) ''m''),
               summarize (new_commit stringify_sample st_fresh (clk_at 2000) (JArr []) ''m'')]
   \<and> getCommitHistory (storage (gitManager (snd (importRepository
         (exportRepository (storage (gitManager (tracker_of st_later))) ''2025-01-01'')
         (tracker_of st_later) 3000)))) (enat 50)
       = Some [summarize (new_commit stringify_sample st_committed (clk_at 2001) (JArr []) ''m''),
               summarize (new_commit stringify_sample st_fresh (clk_at 2000) (JArr []) ''m'')]
   \<and> getCommitHistory (storage (gitManager (snd (importRepository
         (exportRepository (storage (gitManager (tracker_of st_later))) ''2025-01-01'')
         (tracker_of st_later) 3000)))) \<infinity>
       = Some [summarize (new_commit stringify_sample st_committed (clk_at 2001) (JArr []) ''m''),
               summarize (new_commit stringify_sample st_fresh (clk_at 2000) (JArr []) ''m'')]"
proof -
  let ?c1 = "new_commit stringify_sample st_fresh (clk_at 2000) (JArr []) ''m''"
  let ?c2 = "new_commit stringify_sample st_committed (clk_at 2001) (JArr []) ''m''"
  let ?tr = "tracker_of st_later"
  let ?st' = "storage (gitManager (snd (importRepository
         (exportRepository (storage (gitManager ?tr)) ''2025-01-01'') ?tr 3000)))"
  have s: "storage (gitManager ?tr) = st_later" by (simp add: tracker_of_def)
  have r: "reachable (storage (gitManager ?tr))"
    using reachable_st_later by (simp add: s)
  have b: "getCommitHistory (storage (gitManager ?tr)) (enat 50)
      = Some [summarize ?c2, summarize ?c1]"
    unfolding s by (simp add: getCommitHistory_finite st_later_walk)
  from export_import_round_trip[OF r, of "''2025-01-01''" 3000 50]
  obtain hs where 1: "getRepositoryStats ?st' = getRepositoryStats (storage (gitManager ?tr))"
    and 2: "getCommitHistory (storage (gitManager ?tr)) (enat 50) = Some hs"
    and 3: "getCommitHistory ?st' (enat 50) = Some hs"
    and 4: "length hs < 50 \<longrightarrow>
                   getCommitHistory (storage (gitManager ?tr)) \<infinity> = Some hs
                   \<and> getCommitHistory ?st' \<infinity> = Some hs"
    by (elim exE conjE)
  from 2 b have hs: "hs = [summarize ?c2, summarize ?c1]" by simp
  from 3 hs have a: "getCommitHistory ?st' (enat 50) = Some [summarize ?c2, summarize ?c1]"
    by simp
  from 4 hs have u: "getCommitHistory ?st' \<infinity> = Some [summarize ?c2, summarize ?c1]"
    by simp
  from r 1 b a u show ?thesis by (intro conjI)
qed

section \<open>Change Coalescer\<close>

lemma process_empty: "pendingChanges tr = [] \<Longrightarrow> processBufferedChanges ev tr now = (None, tr)"
  by (simp add: processBufferedChanges_def)


lemma createCommit_slots:
  assumes "createCommit sf st0 clk d m a = Inr (h, st)"
  shows "st0\<lparr>bookmark_git_repo := bookmark_git_repo st,
             bookmark_commits := bookmark_commits st\<rparr> = st"
  using createCommit_Inr[OF assms] by auto

lemma storeChangeHistory_slot:
  "st\<lparr>changeHistory := changeHistory (storeChangeHistory st chs now)\<rparr>
     = storeChangeHistory st chs now"
  by (simp add: storeChangeHistory_def Let_def)

lemma process_succeeds:
  assumes "pendingChanges tr \<noteq> []"
    and "createCommit (stringify ev) (storage (gitManager tr)) (clk_at now) (getTree ev now)
           (generateCommitMessage (pendingChanges tr)) ''user'' = Inr (h, st)"
  shows "processBufferedChanges ev tr now =
     (Some (h, generateCommitMessage (pendingChanges tr)),
      tr\<lparr>gitManager := (gitManager tr)\<lparr>storage :=
             storeChangeHistory st (pendingChanges tr) now\<rparr>,
         pendingChanges := [], changeBuffer := None\<rparr>)"
proof -
  note c = assms(2)[unfolded clk_at_def]
  show ?thesis
    using assms(1)
    by (simp add: processBufferedChanges_def resume_def c createCommit_slots[OF c] Let_def
          storeChangeHistory_slot)
qed

lemma process_ok:
  assumes P: "pendingChanges tr \<noteq> []"
    and repo: "bookmark_git_repo (storage (gitManager tr)) \<noteq> None"
    and tree: "null_free (getTree ev now)"
  shows "\<exists>tr'. processBufferedChanges ev tr now
            = (Some (commit_for ev (now, pendingChanges tr)), tr')
          \<and> pendingChanges tr' = [] \<and> changeBuffer tr' = None
          \<and> bufferDelay tr' = bufferDelay tr
          \<and> bookmark_git_repo (storage (gitManager tr')) \<noteq> None"
proof -
  from repo obtain r where r: "bookmark_git_repo (storage (gitManager tr)) = Some r" by auto
  from null_free_returns[OF tree] obtain s where s: "calculateStats (getTree ev now) = Inr s"
    by blast
  let ?m = "generateCommitMessage (pendingChanges tr)"
  let ?cm = "new_commit (stringify ev) (storage (gitManager tr)) (clk_at now) (getTree ev now) ?m"
  note e = createCommit_eq[OF r s, of "stringify ev" "clk_at now" ?m "''user''"]
  have h: "hash ?cm = fst (commit_for ev (now, pendingChanges tr))"
    by (simp add: new_commit_def Let_def commit_for_def clk_at_def)
  have c: "commit_for ev (now, pendingChanges tr) = (hash ?cm, ?m)"
    unfolding h by (simp add: commit_for_def)
  show ?thesis
    unfolding process_succeeds[OF P e] c
    by (simp add: storeChangeHistory_def Let_def)
qed


lemma advance_none: "next_action w t = None \<Longrightarrow> advance ev w t = w"
  by (subst advance.simps) simp

lemma advance_timeout:
  "next_action w t = Some (Timeout tm) \<Longrightarrow> advance ev w t = advance ev (timeout_fires ev w tm) t"
  by (subst advance.simps) simp

lemma advance_answer:
  "next_action w t = Some (Answer sr) \<Longrightarrow> advance ev w t = advance ev (run_resumes ev w sr) t"
  by (subst advance.simps) simp

lemma earliest_later:
  "list_all (\<lambda>b. action_time a \<le> action_time b) bs \<Longrightarrow> earliest (a # bs) = Some a"
  by (induction bs) (auto split: option.splits)

lemma answer_first:
  assumes "runs w = [sr]" "fst sr \<le> t" "list_all (\<lambda>tm. fst sr \<le> snd tm) (timers w)"
  shows "advance ev w t = advance ev (run_resumes ev w sr) t"
proof -
  have "list_all (\<lambda>b. action_time (Answer sr) \<le> action_time b)
      (filter (\<lambda>a. action_time a \<le> t) (map Timeout (timers w)))"
    using assms(3) by (induction "timers w") (auto simp: list_all_iff)
  then have "earliest (Answer sr # filter (\<lambda>a. action_time a \<le> t) (map Timeout (timers w)))
      = Some (Answer sr)"
    by (rule earliest_later)
  then have "next_action w t = Some (Answer sr)"
    using assms(1,2) by (simp add: next_action_def del: earliest.simps)
  then show ?thesis by (rule advance_answer)
qed

lemma timeout_first:
  assumes "runs w = []" "timers w = [tm]" "snd tm \<le> t"
  shows "advance ev w t = advance ev (timeout_fires ev w tm) t"
proof -
  have "next_action w t = Some (Timeout tm)"
    using assms by (simp add: next_action_def)
  then show ?thesis by (rule advance_timeout)
qed

lemma nothing_due:
  assumes "list_all (\<lambda>sr. t < fst sr) (runs w)" "list_all (\<lambda>tm. t < snd tm) (timers w)"
  shows "advance ev w t = w"
proof -
  have "filter (\<lambda>a. action_time a \<le> t) (map Answer (runs w) @ map Timeout (timers w)) = []"
    using assms by (auto simp: filter_empty_conv list_all_iff)
  then show ?thesis by (intro advance_none) (simp add: next_action_def)
qed

lemma createCommit_committed:
  assumes "bookmark_git_repo st \<noteq> None" "null_free d"
  shows "createCommit sf st clk d m ''user''
     = Inr (hash (new_commit sf st clk d m), committed sf st clk d m)"
proof -
  from assms obtain r where r: "bookmark_git_repo st = Some r" by auto
  from null_free_returns[OF assms(2)] obtain s where s: "calculateStats d = Inr s" by blast
  show ?thesis
    by (simp add: createCommit_eq[OF r s] committed_def)
qed

lemma committed_slots:
  assumes "bookmark_git_repo st \<noteq> None" "null_free d"
  shows "st\<lparr>bookmark_git_repo := bookmark_git_repo (committed sf st clk d m),
            bookmark_commits := bookmark_commits (committed sf st clk d m)\<rparr>
         = committed sf st clk d m"
    and "changeHistory (committed sf st clk d m) = changeHistory st"
    and "commit_table (committed sf st clk d m)
         = (commit_table st)(hash (new_commit sf st clk d m) \<mapsto> new_commit sf st clk d m)"
    and "repo_head (committed sf st clk d m) = Some (hash (new_commit sf st clk d m))"
    and "bookmark_git_repo (committed sf st clk d m) \<noteq> None"
    and "getCurrentBranch (committed sf st clk d m) = getCurrentBranch st"
proof -
  note c = createCommit_committed[OF assms, of sf clk m]
  show "st\<lparr>bookmark_git_repo := bookmark_git_repo (committed sf st clk d m),
            bookmark_commits := bookmark_commits (committed sf st clk d m)\<rparr>
         = committed sf st clk d m"
    by (rule createCommit_slots[OF c])
  show "changeHistory (committed sf st clk d m) = changeHistory st"
    using createCommit_Inr[OF c] by auto
  show "commit_table (committed sf st clk d m)
         = (commit_table st)(hash (new_commit sf st clk d m) \<mapsto> new_commit sf st clk d m)"
    by (rule createCommit_table[OF c])
  show h: "repo_head (committed sf st clk d m) = Some (hash (new_commit sf st clk d m))"
    by (rule createCommit_branch_kept(2)[OF c])
  show "bookmark_git_repo (committed sf st clk d m) \<noteq> None"
    using h by (auto simp: repo_head_def split: option.splits)
  show "getCurrentBranch (committed sf st clk d m) = getCurrentBranch st"
    by (rule createCommit_branch_kept(1)[OF c])
qed

lemma resumes_tree:
  assumes "runs w = [(s, Awaiting_tree)]"
  shows "run_resumes ev w (s, Awaiting_tree) =
     w\<lparr>runs := [(s + storage_latency ev,
          Awaiting_commit_reads (getTree ev s)
            (generateCommitMessage (pendingChanges (the_tracker w))) s
            (storage (gitManager (the_tracker w))))]\<rparr>"
  using assms by (simp add: run_resumes_def resume_def latency_def)

lemma resumes_commit_reads:
  assumes "runs w = [(s, Awaiting_commit_reads d m c (storage (gitManager (the_tracker w))))]"
    and "bookmark_git_repo (storage (gitManager (the_tracker w))) \<noteq> None" "null_free d"
  shows "run_resumes ev w (s, Awaiting_commit_reads d m c (storage (gitManager (the_tracker w)))) =
     w\<lparr>the_tracker := (the_tracker w)\<lparr>gitManager := (gitManager (the_tracker w))\<lparr>storage :=
            committed (stringify ev) (storage (gitManager (the_tracker w)))
              \<lparr>at_hash_input = c, at_hash_suffix = c, at_author = s, at_committer = s\<rparr> d m\<rparr>\<rparr>,
        runs := [(s + storage_latency ev, Awaiting_commit_write)]\<rparr>"
  using assms(1)
  by (simp add: run_resumes_def resume_def latency_def createCommit_committed[OF assms(2,3)]
        committed_slots(1)[OF assms(2,3)])

lemma resumes_commit_write:
  assumes "runs w = [(s, Awaiting_commit_write)]"
  shows "run_resumes ev w (s, Awaiting_commit_write) =
     w\<lparr>runs := [(s + storage_latency ev,
          Awaiting_history_read None (changeHistory (storage (gitManager (the_tracker w)))))]\<rparr>"
  using assms by (simp add: run_resumes_def resume_def latency_def)

lemma resumes_history_read:
  assumes "runs w = [(s, Awaiting_history_read None
                          (changeHistory (storage (gitManager (the_tracker w)))))]"
  shows "run_resumes ev w (s, Awaiting_history_read None
                          (changeHistory (storage (gitManager (the_tracker w))))) =
     w\<lparr>the_tracker := (the_tracker w)\<lparr>gitManager := (gitManager (the_tracker w))\<lparr>storage :=
            storeChangeHistory (storage (gitManager (the_tracker w)))
              (pendingChanges (the_tracker w)) s\<rparr>\<rparr>,
        runs := [(s + storage_latency ev, Awaiting_history_write)]\<rparr>"
  using assms
  by (simp add: run_resumes_def resume_def latency_def Let_def storeChangeHistory_slot)

lemma resumes_history_write:
  assumes "runs w = [(s, Awaiting_history_write)]"
  shows "run_resumes ev w (s, Awaiting_history_write) =
     w\<lparr>the_tracker := (the_tracker w)\<lparr>pendingChanges := [], changeBuffer := None\<rparr>,
        runs := []\<rparr>"
  using assms by (simp add: run_resumes_def resume_def)


lemma storeChangeHistory_keeps:
  "commit_table (storeChangeHistory st chs now) = commit_table st"
  "repo_head (storeChangeHistory st chs now) = repo_head st"
  "bookmark_git_repo (storeChangeHistory st chs now) = bookmark_git_repo st"
  "getCurrentBranch (storeChangeHistory st chs now) = getCurrentBranch st"
  by (simp_all add: storeChangeHistory_def Let_def commit_table_def repo_head_def
        getCurrentBranch_def)

lemma history_of_one:
  assumes "commit_table st = [h \<mapsto> cm]" "repo_head st = Some h" "h \<noteq> []"
    "parent cm = None" "date_representable (timestamp (committer cm))"
  shows "getCommitHistory st 50 = Some [summarize cm]"
    and "totalCommits (getRepositoryStats st) = 1"
proof -
  have e50: "(50 :: enat) = enat 50" by (simp add: numeral_eq_enat)
  have c2: "chain (commit_table st) (repo_head st) 2 = [cm]"
    using assms by (simp add: numeral_2_eq_2)
  have t2: "throws (commit_table st) (repo_head st) 2 = None"
    using assms by (simp add: numeral_2_eq_2 object_get_def)
  have "chain (commit_table st) (repo_head st) 50 = [cm]"
    using chain_stable[of "commit_table st" "repo_head st" 2 50] c2 by simp
  moreover have "throws (commit_table st) (repo_head st) 50 = None"
    using throws_stable[of "commit_table st" "repo_head st" 2 50] c2 t2 by simp
  ultimately show "getCommitHistory st 50 = Some [summarize cm]"
    unfolding e50 by (simp add: getCommitHistory_finite)
  show "totalCommits (getRepositoryStats st) = 1"
    by (simp add: getRepositoryStats_def Let_def assms(1))
qed

lemma history_of_two:
  assumes "commit_table st = [h1 \<mapsto> cm1, h2 \<mapsto> cm2]" "repo_head st = Some h2"
    "h1 \<noteq> []" "h2 \<noteq> []" "h1 \<noteq> h2"
    "parent cm2 = Some h1" "parent cm1 = None"
    "date_representable (timestamp (committer cm1))"
    "date_representable (timestamp (committer cm2))"
  shows "getCommitHistory st 50 = Some [summarize cm2, summarize cm1]"
    and "totalCommits (getRepositoryStats st) = 2"
proof -
  have e50: "(50 :: enat) = enat 50" by (simp add: numeral_eq_enat)
  have c3: "chain (commit_table st) (repo_head st) 3 = [cm2, cm1]"
    using assms by (simp add: numeral_3_eq_3)
  have t3: "throws (commit_table st) (repo_head st) 3 = None"
    using assms by (simp add: numeral_3_eq_3 object_get_def)
  have "chain (commit_table st) (repo_head st) 50 = [cm2, cm1]"
    using chain_stable[of "commit_table st" "repo_head st" 3 50] c3 by simp
  moreover have "throws (commit_table st) (repo_head st) 50 = None"
    using throws_stable[of "commit_table st" "repo_head st" 3 50] c3 t3 by simp
  ultimately show "getCommitHistory st 50 = Some [summarize cm2, summarize cm1]"
    unfolding e50 by (simp add: getCommitHistory_finite)
  have "dom (commit_table st) = {h1, h2}" by (auto simp: assms(1))
  then show "totalCommits (getRepositoryStats st) = 2"
    using assms(5) by (simp add: getRepositoryStats_def Let_def)
qed

lemma st_fresh_facts:
  "bookmark_git_repo st_fresh \<noteq> None" "commit_table st_fresh = Map.empty"
  "repo_head st_fresh = None" "changeHistory st_fresh = None"
  by (simp_all add: st_fresh_def ensureRepository_def empty_store_def commit_table_def
        repo_head_def)

lemma new_commit_hash:
  "hash (new_commit sf st clk d m)
     = generateHash (toString_radix 10 (at_hash_input clk) @ m @ sf d) (at_hash_suffix clk)"
  by (simp add: new_commit_def Let_def)

lemma new_commit_fields:
  "message (new_commit sf st clk d m) = m"
  "parent (new_commit sf st clk d m) = repo_head st"
  by (simp_all add: new_commit_def Let_def repo_head_def)

lemma gap_messages:
  "generateCommitMessage [mk_change (0, Created ''1'' ''Docs'' (Some ''https://a.example'')),
      mk_change (1020, Removed ''2'')] = ''Bulk bookmark changes: 1 created, 1 removed''"
  "generateCommitMessage [mk_change (0, Created ''1'' ''Docs'' (Some ''https://a.example''))]
     = ''Added bookmark: Docs''"
  "generateCommitMessage [mk_change (1020, Removed ''2'')] = ''Removed bookmark (ID: 2)''"
  by (simp_all add: mk_change_def eventCounts_def toString_radix.simps digit_char_def)

lemma slow_end:
  defines "c1 \<equiv> mk_change (0, Created ''1'' ''Docs'' (Some ''https://a.example''))"
  defines "c2 \<equiv> mk_change (1020, Removed ''2'')"
  defines "stA \<equiv> storeChangeHistory (committed stringify_sample st_fresh
        \<lparr>at_hash_input = 1050, at_hash_suffix = 1050, at_author = 1060, at_committer = 1060\<rparr>
        (JArr []) (generateCommitMessage [c1, c2])) [c1, c2] 1080"
  shows "advance env_slow (receive env_slow w0 gap_events) 5000
     = \<lparr>the_tracker = (tracker_of stA)\<lparr>changeBuffer := None\<rparr>,
        timers = [], next_timer = 3, runs = []\<rparr>"
proof -
  let ?e1 = "Created ''1'' ''Docs'' (Some ''https://a.example'')"
  let ?tr = "\<lambda>st P b. (tracker_of st)\<lparr>pendingChanges := P, changeBuffer := b\<rparr>"
  let ?w = "\<lambda>tr tms k rs. \<lparr>the_tracker = tr, timers = tms, next_timer = k, runs = rs\<rparr>"
  let ?clk = "\<lparr>at_hash_input = 1050, at_hash_suffix = 1050, at_author = 1060, at_committer = 1060\<rparr>"
  let ?m = "generateCommitMessage [c1, c2]"
  let ?st1 = "committed stringify_sample st_fresh ?clk (JArr []) ?m"
  note fr = st_fresh_facts(1)
  have nf: "null_free (JArr [])" by simp
  have a0: "advance env_slow w0 0 = w0"
    by (rule nothing_due) (simp_all add: w0_def)
  have h1: "handleBookmarkChange w0 0 ?e1 = ?w (?tr st_fresh [c1] (Some 1)) [(1, 1000)] 2 []"
    by (simp add: handleBookmarkChange_def w0_def tracker_of_def mk_change_def c1_def)
  have a1: "advance env_slow (?w (?tr st_fresh [c1] (Some 1)) [(1, 1000)] 2 []) 1020
      = ?w (?tr st_fresh [c1] (Some 1)) [] 2 [(1050, Awaiting_tree)]"
    by (subst timeout_first[where tm = "(1, 1000)"], simp, simp, simp)
       (subst nothing_due, simp_all add: timeout_fires_def env_slow_def tracker_of_def)
  have h2: "handleBookmarkChange (?w (?tr st_fresh [c1] (Some 1)) [] 2 [(1050, Awaiting_tree)])
        1020 (Removed ''2'')
      = ?w (?tr st_fresh [c1, c2] (Some 2)) [(2, 2020)] 3 [(1050, Awaiting_tree)]"
    by (simp add: handleBookmarkChange_def tracker_of_def mk_change_def c2_def)
  have r: "receive env_slow w0 gap_events
      = ?w (?tr st_fresh [c1, c2] (Some 2)) [(2, 2020)] 3 [(1050, Awaiting_tree)]"
    unfolding gap_events_def receive.simps a0 h1 a1 h2 ..
  have s1: "advance env_slow (?w (?tr st_fresh [c1, c2] (Some 2)) [(2, 2020)] 3
        [(1050, Awaiting_tree)]) 5000
      = advance env_slow (?w (?tr st_fresh [c1, c2] (Some 2)) [(2, 2020)] 3
        [(1060, Awaiting_commit_reads (JArr []) ?m 1050 st_fresh)]) 5000"
    by (subst answer_first[where sr = "(1050, Awaiting_tree)"], simp, simp, simp)
       (simp add: resumes_tree env_slow_def tracker_of_def)
  have s2: "advance env_slow (?w (?tr st_fresh [c1, c2] (Some 2)) [(2, 2020)] 3
        [(1060, Awaiting_commit_reads (JArr []) ?m 1050 st_fresh)]) 5000
      = advance env_slow (?w (?tr ?st1 [c1, c2] (Some 2)) [(2, 2020)] 3
        [(1070, Awaiting_commit_write)]) 5000"
    by (subst answer_first[where sr = "(1060, Awaiting_commit_reads (JArr []) ?m 1050 st_fresh)"],
        simp, simp, simp)
       (simp add: run_resumes_def resume_def latency_def createCommit_committed[OF fr nf]
          committed_slots(1)[OF fr nf] env_slow_def tracker_of_def)
  have s3: "advance env_slow (?w (?tr ?st1 [c1, c2] (Some 2)) [(2, 2020)] 3
        [(1070, Awaiting_commit_write)]) 5000
      = advance env_slow (?w (?tr ?st1 [c1, c2] (Some 2)) [(2, 2020)] 3
        [(1080, Awaiting_history_read None (changeHistory ?st1))]) 5000"
    by (subst answer_first[where sr = "(1070, Awaiting_commit_write)"], simp, simp, simp)
       (simp add: resumes_commit_write env_slow_def tracker_of_def)
  have s4: "advance env_slow (?w (?tr ?st1 [c1, c2] (Some 2)) [(2, 2020)] 3
        [(1080, Awaiting_history_read None (changeHistory ?st1))]) 5000
      = advance env_slow (?w (?tr stA [c1, c2] (Some 2)) [(2, 2020)] 3
        [(1090, Awaiting_history_write)]) 5000"
    by (subst answer_first[where sr = "(1080, Awaiting_history_read None (changeHistory ?st1))"],
        simp, simp, simp)
       (simp add: run_resumes_def resume_def latency_def Let_def storeChangeHistory_slot
          env_slow_def tracker_of_def stA_def)
  have s5: "advance env_slow (?w (?tr stA [c1, c2] (Some 2)) [(2, 2020)] 3
        [(1090, Awaiting_history_write)]) 5000
      = advance env_slow (?w (?tr stA [] None) [(2, 2020)] 3 []) 5000"
    by (subst answer_first[where sr = "(1090, Awaiting_history_write)"], simp, simp, simp)
       (simp add: resumes_history_write tracker_of_def)
  have s6: "advance env_slow (?w (?tr stA [] None) [(2, 2020)] 3 []) 5000
      = ?w (?tr stA [] None) [] 3 []"
    by (subst timeout_first[where tm = "(2, 2020)"], simp, simp, simp)
       (subst nothing_due, simp_all add: timeout_fires_def tracker_of_def)
  show ?thesis
    unfolding r s1 s2 s3 s4 s5 s6 by (simp add: tracker_of_def)
qed


lemma quick_end:
  defines "c1 \<equiv> mk_change (0, Created ''1'' ''Docs'' (Some ''https://a.example''))"
  defines "c2 \<equiv> mk_change (1020, Removed ''2'')"
  defines "stB \<equiv> storeChangeHistory (committed stringify_sample st_fresh
        \<lparr>at_hash_input = 1005, at_hash_suffix = 1005, at_author = 1015, at_committer = 1015\<rparr>
        (JArr []) (generateCommitMessage [c1])) [c1, c2] 1035"
  shows "advance env_quick (receive env_quick w0 gap_events) 5000
     = \<lparr>the_tracker = (tracker_of stB)\<lparr>changeBuffer := None\<rparr>,
        timers = [], next_timer = 3, runs = []\<rparr>"
proof -
  let ?e1 = "Created ''1'' ''Docs'' (Some ''https://a.example'')"
  let ?tr = "\<lambda>st P b. (tracker_of st)\<lparr>pendingChanges := P, changeBuffer := b\<rparr>"
  let ?w = "\<lambda>tr tms k rs. \<lparr>the_tracker = tr, timers = tms, next_timer = k, runs = rs\<rparr>"
  let ?clk = "\<lparr>at_hash_input = 1005, at_hash_suffix = 1005, at_author = 1015, at_committer = 1015\<rparr>"
  let ?m = "generateCommitMessage [c1]"
  let ?st1 = "committed stringify_sample st_fresh ?clk (JArr []) ?m"
  note fr = st_fresh_facts(1)
  have nf: "null_free (JArr [])" by simp
  have a0: "advance env_quick w0 0 = w0"
    by (rule nothing_due) (simp_all add: w0_def)
  have h1: "handleBookmarkChange w0 0 ?e1 = ?w (?tr st_fresh [c1] (Some 1)) [(1, 1000)] 2 []"
    by (simp add: handleBookmarkChange_def w0_def tracker_of_def mk_change_def c1_def)
  have b1: "advance env_quick (?w (?tr st_fresh [c1] (Some 1)) [(1, 1000)] 2 []) 1020
      = advance env_quick (?w (?tr st_fresh [c1] (Some 1)) [] 2 [(1005, Awaiting_tree)]) 1020"
    by (subst timeout_first[where tm = "(1, 1000)"], simp, simp, simp)
       (simp add: timeout_fires_def env_quick_def tracker_of_def)
  have b2: "advance env_quick (?w (?tr st_fresh [c1] (Some 1)) [] 2 [(1005, Awaiting_tree)]) 1020
      = advance env_quick (?w (?tr st_fresh [c1] (Some 1)) [] 2
          [(1015, Awaiting_commit_reads (JArr []) ?m 1005 st_fresh)]) 1020"
    by (subst answer_first[where sr = "(1005, Awaiting_tree)"], simp, simp, simp)
       (simp add: resumes_tree env_quick_def tracker_of_def)
  have b3: "advance env_quick (?w (?tr st_fresh [c1] (Some 1)) [] 2
          [(1015, Awaiting_commit_reads (JArr []) ?m 1005 st_fresh)]) 1020
      = ?w (?tr ?st1 [c1] (Some 1)) [] 2 [(1025, Awaiting_commit_write)]"
    by (subst answer_first[where sr = "(1015, Awaiting_commit_reads (JArr []) ?m 1005 st_fresh)"],
        simp, simp, simp)
       (subst nothing_due,
        simp_all add: run_resumes_def resume_def latency_def createCommit_committed[OF fr nf]
          committed_slots(1)[OF fr nf] env_quick_def tracker_of_def)
  have h2: "handleBookmarkChange (?w (?tr ?st1 [c1] (Some 1)) [] 2 [(1025, Awaiting_commit_write)])
        1020 (Removed ''2'')
      = ?w (?tr ?st1 [c1, c2] (Some 2)) [(2, 2020)] 3 [(1025, Awaiting_commit_write)]"
    by (simp add: handleBookmarkChange_def tracker_of_def mk_change_def c2_def)
  have r: "receive env_quick w0 gap_events
      = ?w (?tr ?st1 [c1, c2] (Some 2)) [(2, 2020)] 3 [(1025, Awaiting_commit_write)]"
    unfolding gap_events_def receive.simps a0 h1 b1 b2 b3 h2 ..
  have s3: "advance env_quick (?w (?tr ?st1 [c1, c2] (Some 2)) [(2, 2020)] 3
        [(1025, Awaiting_commit_write)]) 5000
      = advance env_quick (?w (?tr ?st1 [c1, c2] (Some 2)) [(2, 2020)] 3
        [(1035, Awaiting_history_read None (changeHistory ?st1))]) 5000"
    by (subst answer_first[where sr = "(1025, Awaiting_commit_write)"], simp, simp, simp)
       (simp add: resumes_commit_write env_quick_def tracker_of_def)
  have s4: "advance env_quick (?w (?tr ?st1 [c1, c2] (Some 2)) [(2, 2020)] 3
        [(1035, Awaiting_history_read None (changeHistory ?st1))]) 5000
      = advance env_quick (?w (?tr stB [c1, c2] (Some 2)) [(2, 2020)] 3
        [(1045, Awaiting_history_write)]) 5000"
    by (subst answer_first[where sr = "(1035, Awaiting_history_read None (changeHistory ?st1))"],
        simp, simp, simp)
       (simp add: run_resumes_def resume_def latency_def Let_def storeChangeHistory_slot
          env_quick_def tracker_of_def stB_def)
  have s5: "advance env_quick (?w (?tr stB [c1, c2] (Some 2)) [(2, 2020)] 3
        [(1045, Awaiting_history_write)]) 5000
      = advance env_quick (?w (?tr stB [] None) [(2, 2020)] 3 []) 5000"
    by (subst answer_first[where sr = "(1045, Awaiting_history_write)"], simp, simp, simp)
       (simp add: resumes_history_write tracker_of_def)
  have s6: "advance env_quick (?w (?tr stB [] None) [(2, 2020)] 3 []) 5000
      = ?w (?tr stB [] None) [] 3 []"
    by (subst timeout_first[where tm = "(2, 2020)"], simp, simp, simp)
       (subst nothing_due, simp_all add: timeout_fires_def tracker_of_def)
  show ?thesis
    unfolding r s3 s4 s5 s6 by (simp add: tracker_of_def)
qed

lemma run_at_once:
  fixes P :: "change list" and st :: store and d k :: nat
  assumes P: "P \<noteq> []" and repo: "bookmark_git_repo st \<noteq> None" and t: "d \<le> t"
  shows "advance env0 \<lparr>the_tracker = (tracker_of st)\<lparr>pendingChanges := P, changeBuffer := Some i\<rparr>,
            timers = [(i, d)], next_timer = k, runs = []\<rparr> t
     = \<lparr>the_tracker = (tracker_of (storeChangeHistory
            (committed stringify_sample st (clk_at d) (JArr []) (generateCommitMessage P)) P d))
            \<lparr>changeBuffer := None\<rparr>,
        timers = [], next_timer = k, runs = []\<rparr>"
proof -
  let ?tr = "\<lambda>st P b. (tracker_of st)\<lparr>pendingChanges := P, changeBuffer := b\<rparr>"
  let ?w = "\<lambda>tr tms rs. \<lparr>the_tracker = tr, timers = tms, next_timer = k, runs = rs\<rparr>"
  let ?m = "generateCommitMessage P"
  let ?st1 = "committed stringify_sample st (clk_at d) (JArr []) ?m"
  let ?st2 = "storeChangeHistory ?st1 P d"
  have nf: "null_free (JArr [])" by simp
  have s0: "advance env0 (?w (?tr st P (Some i)) [(i, d)] []) t
      = advance env0 (?w (?tr st P (Some i)) [] [(d, Awaiting_tree)]) t"
    using P t
    by (subst timeout_first[where tm = "(i, d)"], simp, simp, simp)
       (simp add: timeout_fires_def env0_def tracker_of_def)
  have s1: "advance env0 (?w (?tr st P (Some i)) [] [(d, Awaiting_tree)]) t
      = advance env0 (?w (?tr st P (Some i)) []
          [(d, Awaiting_commit_reads (JArr []) ?m d st)]) t"
    using t
    by (subst answer_first[where sr = "(d, Awaiting_tree)"], simp, simp, simp)
       (simp add: resumes_tree env0_def tracker_of_def)
  have s2: "advance env0 (?w (?tr st P (Some i)) []
          [(d, Awaiting_commit_reads (JArr []) ?m d st)]) t
      = advance env0 (?w (?tr ?st1 P (Some i)) [] [(d, Awaiting_commit_write)]) t"
    using t
    by (subst answer_first[where sr = "(d, Awaiting_commit_reads (JArr []) ?m d st)"],
        simp, simp, simp)
       (simp add: run_resumes_def resume_def latency_def createCommit_committed[OF repo nf]
          committed_slots(1)[OF repo nf] env0_def tracker_of_def clk_at_def)
  have s3: "advance env0 (?w (?tr ?st1 P (Some i)) [] [(d, Awaiting_commit_write)]) t
      = advance env0 (?w (?tr ?st1 P (Some i)) []
          [(d, Awaiting_history_read None (changeHistory ?st1))]) t"
    using t
    by (subst answer_first[where sr = "(d, Awaiting_commit_write)"], simp, simp, simp)
       (simp add: resumes_commit_write env0_def tracker_of_def)
  have s4: "advance env0 (?w (?tr ?st1 P (Some i)) []
          [(d, Awaiting_history_read None (changeHistory ?st1))]) t
      = advance env0 (?w (?tr ?st2 P (Some i)) [] [(d, Awaiting_history_write)]) t"
    using t
    by (subst answer_first[where sr = "(d, Awaiting_history_read None (changeHistory ?st1))"],
        simp, simp, simp)
       (simp add: run_resumes_def resume_def latency_def Let_def storeChangeHistory_slot
          env0_def tracker_of_def)
  have s5: "advance env0 (?w (?tr ?st2 P (Some i)) [] [(d, Awaiting_history_write)]) t
      = ?w (?tr ?st2 [] None) [] []"
    using t
    by (subst answer_first[where sr = "(d, Awaiting_history_write)"], simp, simp, simp)
       (subst nothing_due, simp_all add: resumes_history_write tracker_of_def)
  show ?thesis
    unfolding s0 s1 s2 s3 s4 s5 by (simp add: tracker_of_def)
qed

lemma at_once_end:
  defines "c1 \<equiv> mk_change (0, Created ''1'' ''Docs'' (Some ''https://a.example''))"
  defines "c2 \<equiv> mk_change (1020, Removed ''2'')"
  defines "stC1 \<equiv> storeChangeHistory (committed stringify_sample st_fresh (clk_at 1000)
        (JArr []) (generateCommitMessage [c1])) [c1] 1000"
  defines "stC2 \<equiv> storeChangeHistory (committed stringify_sample stC1 (clk_at 2020)
        (JArr []) (generateCommitMessage [c2])) [c2] 2020"
  shows "advance env0 (receive env0 w0 gap_events) 5000
     = \<lparr>the_tracker = (tracker_of stC2)\<lparr>changeBuffer := None\<rparr>,
        timers = [], next_timer = 3, runs = []\<rparr>"
proof -
  let ?e1 = "Created ''1'' ''Docs'' (Some ''https://a.example'')"
  let ?tr = "\<lambda>st P b. (tracker_of st)\<lparr>pendingChanges := P, changeBuffer := b\<rparr>"
  let ?w = "\<lambda>tr tms k rs. \<lparr>the_tracker = tr, timers = tms, next_timer = k, runs = rs\<rparr>"
  have nf: "null_free (JArr [])" by simp
  have a0: "advance env0 w0 0 = w0"
    by (rule nothing_due) (simp_all add: w0_def)
  have h1: "handleBookmarkChange w0 0 ?e1 = ?w (?tr st_fresh [c1] (Some 1)) [(1, 1000)] 2 []"
    by (simp add: handleBookmarkChange_def w0_def tracker_of_def mk_change_def c1_def)
  have a1: "advance env0 (?w (?tr st_fresh [c1] (Some 1)) [(1, 1000)] 2 []) 1020
      = ?w (?tr stC1 [] None) [] 2 []"
    using run_at_once[of "[c1]" st_fresh 1000 1020 1 2] st_fresh_facts(1)
    by (simp add: stC1_def tracker_of_def)
  have h2: "handleBookmarkChange (?w (?tr stC1 [] None) [] 2 []) 1020 (Removed ''2'')
      = ?w (?tr stC1 [c2] (Some 2)) [(2, 2020)] 3 []"
    by (simp add: handleBookmarkChange_def tracker_of_def mk_change_def c2_def)
  have r: "receive env0 w0 gap_events = ?w (?tr stC1 [c2] (Some 2)) [(2, 2020)] 3 []"
    unfolding gap_events_def receive.simps a0 h1 a1 h2 ..
  have repo: "bookmark_git_repo stC1 \<noteq> None"
    by (simp add: stC1_def storeChangeHistory_keeps committed_slots(5)[OF st_fresh_facts(1) nf])
  show ?thesis
    unfolding r using run_at_once[of "[c2]" stC1 2020 5000 2 3] repo
    by (simp add: stC2_def tracker_of_def)
qed


text \<open>
  Claim C3 fails on the code when an event arrives while \<open>processBufferedChanges\<close> is
  suspended at one of its awaits. An idle tracker with the quiet period of 1000 ms receives
  two events 1020 ms apart and is then left alone: the claim gives each of them a commit
  of its own. The timeout of the first event fires at 1000. When \<open>getTree\<close> answers after
  50 ms, the second event is pushed while the run awaits the tree; the message is then
  generated from both events, one commit is created, \<open>pendingChanges = []\<close> erases both,
  and the timeout that the second event has set finds the buffer empty: one commit, not
  two. When \<open>getTree\<close> answers after 5 ms, the second event is pushed while the run
  awaits a storage call, after the message was generated: the one commit is that of the
  first event, and the second event is erased without being in any commit. In both cases
  nothing is left pending. When every answer arrives at once, the same two events get
  the two commits of the claim.
\<close>

theorem event_during_run_gets_no_commit:
  "map fst gap_events = [0, 1020]
   \<and> bufferDelay (the_tracker w0) = 1000
   \<and> timers (left_alone env_slow) = []
   \<and> runs (left_alone env_slow) = []
   \<and> pendingChanges (the_tracker (left_alone env_slow)) = []
   \<and> totalCommits (getRepositoryStats (storage (gitManager (the_tracker (left_alone env_slow)))))
       = 1
   \<and> map_option (map summary_message)
        (getCommitHistory (storage (gitManager (the_tracker (left_alone env_slow)))) 50)
       = Some [''Bulk bookmark changes: 1 created, 1 removed'']
   \<and> timers (left_alone env_quick) = []
   \<and> runs (left_alone env_quick) = []
   \<and> pendingChanges (the_tracker (left_alone env_quick)) = []
   \<and> totalCommits (getRepositoryStats (storage (gitManager (the_tracker (left_alone env_quick)))))
       = 1
   \<and> map_option (map summary_message)
        (getCommitHistory (storage (gitManager (the_tracker (left_alone env_quick)))) 50)
       = Some [''Added bookmark: Docs'']
   \<and> totalCommits (getRepositoryStats (storage (gitManager (the_tracker (left_alone env0)))))
       = 2
   \<and> map_option (map summary_message)
        (getCommitHistory (storage (gitManager (the_tracker (left_alone env0)))) 50)
       = Some [''Removed bookmark (ID: 2)'', ''Added bookmark: Docs'']"
proof -
  let ?c1 = "mk_change (0, Created ''1'' ''Docs'' (Some ''https://a.example''))"
  let ?c2 = "mk_change (1020, Removed ''2'')"
  note fr = st_fresh_facts(1)
  have nf: "null_free (JArr [])" by simp
  have g: "map fst gap_events = [0, 1020]" "bufferDelay (the_tracker w0) = 1000"
    by (simp_all add: gap_events_def w0_def tracker_of_def)
  text \<open>\<open>getTree\<close> answers after 50 ms.\<close>
  let ?clkA = "\<lparr>at_hash_input = 1050, at_hash_suffix = 1050, at_author = 1060,
                at_committer = 1060\<rparr>"
  let ?cmA = "new_commit stringify_sample st_fresh ?clkA (JArr []) (generateCommitMessage [?c1, ?c2])"
  let ?stA = "storeChangeHistory (committed stringify_sample st_fresh ?clkA (JArr [])
        (generateCommitMessage [?c1, ?c2])) [?c1, ?c2] 1080"
  have wA: "left_alone env_slow
      = \<lparr>the_tracker = (tracker_of ?stA)\<lparr>changeBuffer := None\<rparr>,
        timers = [], next_timer = 3, runs = []\<rparr>"
    unfolding left_alone_def by (rule slow_end)
  have sA: "storage (gitManager (the_tracker (left_alone env_slow))) = ?stA"
    by (simp add: wA tracker_of_def del: generateCommitMessage.simps)
  have tA: "commit_table ?stA = [hash ?cmA \<mapsto> ?cmA]" "repo_head ?stA = Some (hash ?cmA)"
    by (simp_all add: storeChangeHistory_keeps committed_slots[OF fr nf] st_fresh_facts
          del: generateCommitMessage.simps)
  have dA: "date_representable (timestamp (committer ?cmA))"
    by (simp add: new_commit_timestamp date_representable_def)
  have pA: "parent ?cmA = None" by (simp add: new_commit_fields st_fresh_facts)
  note hA = history_of_one[OF tA new_commit_hash_nonempty pA dA]
  have A: "timers (left_alone env_slow) = []" "runs (left_alone env_slow) = []"
    "pendingChanges (the_tracker (left_alone env_slow)) = []"
    by (simp_all add: wA tracker_of_def)
  have A4: "totalCommits (getRepositoryStats
      (storage (gitManager (the_tracker (left_alone env_slow))))) = 1"
    unfolding sA by (rule hA(2))
  have A5: "map_option (map summary_message)
        (getCommitHistory (storage (gitManager (the_tracker (left_alone env_slow)))) 50)
       = Some [''Bulk bookmark changes: 1 created, 1 removed'']"
    unfolding sA hA(1) by (simp add: summarize_def new_commit_fields gap_messages
          del: generateCommitMessage.simps)
  text \<open>\<open>getTree\<close> answers after 5 ms.\<close>
  let ?clkB = "\<lparr>at_hash_input = 1005, at_hash_suffix = 1005, at_author = 1015,
                at_committer = 1015\<rparr>"
  let ?cmB = "new_commit stringify_sample st_fresh ?clkB (JArr []) (generateCommitMessage [?c1])"
  let ?stB = "storeChangeHistory (committed stringify_sample st_fresh ?clkB (JArr [])
        (generateCommitMessage [?c1])) [?c1, ?c2] 1035"
  have wB: "left_alone env_quick
      = \<lparr>the_tracker = (tracker_of ?stB)\<lparr>changeBuffer := None\<rparr>,
        timers = [], next_timer = 3, runs = []\<rparr>"
    unfolding left_alone_def by (rule quick_end)
  have sB: "storage (gitManager (the_tracker (left_alone env_quick))) = ?stB"
    by (simp add: wB tracker_of_def del: generateCommitMessage.simps)
  have tB: "commit_table ?stB = [hash ?cmB \<mapsto> ?cmB]" "repo_head ?stB = Some (hash ?cmB)"
    by (simp_all add: storeChangeHistory_keeps committed_slots[OF fr nf] st_fresh_facts
          del: generateCommitMessage.simps)
  have dB: "date_representable (timestamp (committer ?cmB))"
    by (simp add: new_commit_timestamp date_representable_def)
  have pB: "parent ?cmB = None" by (simp add: new_commit_fields st_fresh_facts)
  note hB = history_of_one[OF tB new_commit_hash_nonempty pB dB]
  have B: "timers (left_alone env_quick) = []" "runs (left_alone env_quick) = []"
    "pendingChanges (the_tracker (left_alone env_quick)) = []"
    by (simp_all add: wB tracker_of_def)
  have B4: "totalCommits (getRepositoryStats
      (storage (gitManager (the_tracker (left_alone env_quick))))) = 1"
    unfolding sB by (rule hB(2))
  have B5: "map_option (map summary_message)
        (getCommitHistory (storage (gitManager (the_tracker (left_alone env_quick)))) 50)
       = Some [''Added bookmark: Docs'']"
    unfolding sB hB(1) by (simp add: summarize_def new_commit_fields gap_messages
          del: generateCommitMessage.simps)
  text \<open>Every answer arrives at once.\<close>
  let ?cm1 = "new_commit stringify_sample st_fresh (clk_at 1000) (JArr [])
        (generateCommitMessage [?c1])"
  let ?st1 = "storeChangeHistory (committed stringify_sample st_fresh (clk_at 1000) (JArr [])
        (generateCommitMessage [?c1])) [?c1] 1000"
  let ?cm2 = "new_commit stringify_sample ?st1 (clk_at 2020) (JArr [])
        (generateCommitMessage [?c2])"
  let ?st2 = "storeChangeHistory (committed stringify_sample ?st1 (clk_at 2020) (JArr [])
        (generateCommitMessage [?c2])) [?c2] 2020"
  have wC: "left_alone env0
      = \<lparr>the_tracker = (tracker_of ?st2)\<lparr>changeBuffer := None\<rparr>,
        timers = [], next_timer = 3, runs = []\<rparr>"
    unfolding left_alone_def by (rule at_once_end)
  have sC: "storage (gitManager (the_tracker (left_alone env0))) = ?st2"
    by (simp add: wC tracker_of_def del: generateCommitMessage.simps)
  have r1: "bookmark_git_repo ?st1 \<noteq> None"
    by (simp add: storeChangeHistory_keeps committed_slots(5)[OF fr nf]
          del: generateCommitMessage.simps)
  have t1: "commit_table ?st1 = [hash ?cm1 \<mapsto> ?cm1]" "repo_head ?st1 = Some (hash ?cm1)"
    by (simp_all add: storeChangeHistory_keeps committed_slots[OF fr nf] st_fresh_facts
          del: generateCommitMessage.simps)
  have k1: "commit_table (committed stringify_sample st_fresh (clk_at 1000) (JArr [])
        (generateCommitMessage [?c1])) = [hash ?cm1 \<mapsto> ?cm1]"
    by (simp add: committed_slots[OF fr nf] st_fresh_facts del: generateCommitMessage.simps)
  have tC: "commit_table ?st2 = [hash ?cm1 \<mapsto> ?cm1, hash ?cm2 \<mapsto> ?cm2]"
    "repo_head ?st2 = Some (hash ?cm2)"
    by (simp_all add: storeChangeHistory_keeps committed_slots[OF r1 nf] k1
          del: generateCommitMessage.simps)
  have ne: "hash ?cm1 \<noteq> hash ?cm2"
  proof
    assume e: "hash ?cm1 = hash ?cm2"
    have "at_hash_suffix (clk_at 1000) = at_hash_suffix (clk_at 2020)"
      by (rule generateHash_time_inj[OF e[unfolded new_commit_hash]])
    then show False by (simp add: clk_at_def)
  qed
  have dC: "date_representable (timestamp (committer ?cm1))"
    "date_representable (timestamp (committer ?cm2))"
    by (simp_all add: new_commit_timestamp clk_at_def date_representable_def)
  have pC: "parent ?cm2 = Some (hash ?cm1)" "parent ?cm1 = None"
    by (simp_all add: new_commit_fields t1 st_fresh_facts del: generateCommitMessage.simps)
  note hC = history_of_two[OF tC new_commit_hash_nonempty new_commit_hash_nonempty ne pC dC]
  have C4: "totalCommits (getRepositoryStats
      (storage (gitManager (the_tracker (left_alone env0))))) = 2"
    unfolding sC by (rule hC(2))
  have C5: "map_option (map summary_message)
        (getCommitHistory (storage (gitManager (the_tracker (left_alone env0)))) 50)
       = Some [''Removed bookmark (ID: 2)'', ''Added bookmark: Docs'']"
    unfolding sC hC(1) by (simp add: summarize_def new_commit_fields gap_messages
          del: generateCommitMessage.simps)
  from g A A4 A5 B B4 B5 C4 C5 show ?thesis by (intro conjI)
qed




end
